theory Spec2Isabelle
  imports Main "HOL-Library.Sublist"
begin

section \<open>Strings\<close>

text \<open>
  Python \<open>str\<close> values are modelled as \<open>string\<close>; a \<open>char\<close> stands for a code point
  below 256 (so \<open>CHR 0xFC\<close> is the u-umlaut of the retry message). Whitespace, digits and
  case folding are those of Python on that range.
\<close>

definition NL :: char where
  "NL = CHR 0x0A"

text \<open>
  \<open>c.isspace()\<close>, the characters that \<open>str.strip()\<close> removes and that \<open>\s\<close> matches: tab to
  carriage return, the four separators from 0x1C, the space, next line (0x85) and the
  no-break space (0xA0).
\<close>

definition is_space :: "char \<Rightarrow> bool" where
  "is_space c = (c \<in> set [CHR 0x09, CHR 0x0A, CHR 0x0B, CHR 0x0C, CHR 0x0D,
                           CHR 0x1C, CHR 0x1D, CHR 0x1E, CHR 0x1F, CHR 0x20,
                           CHR 0x85, CHR 0xA0])"

text \<open>\<open>\d\<close>: the decimal digits; below 256 these are \<open>0\<close> to \<open>9\<close>.\<close>

definition is_digit :: "char \<Rightarrow> bool" where
  "is_digit c = (c \<in> set ''0123456789'')"

text \<open>
  \<open>s.lower()\<close>, one character at a time: \<open>A\<close> to \<open>Z\<close> and the capital letters from 0xC0 to
  0xDE (0xD7 is the multiplication sign) move up by 32.
\<close>

definition lower_char :: "char \<Rightarrow> char" where
  "lower_char c =
     (let n = (of_char c :: nat) in
      if (65 \<le> n \<and> n \<le> 90) \<or> (192 \<le> n \<and> n \<le> 222 \<and> n \<noteq> 215) then char_of (n + 32)
      else c)"

definition lower :: "string \<Rightarrow> string" where
  "lower s = map lower_char s"

text \<open>\<open>sub in s\<close> for strings.\<close>

fun contains :: "string \<Rightarrow> string \<Rightarrow> bool" where
  "contains sub [] = (sub = [])"
| "contains sub (c # cs) = (prefix sub (c # cs) \<or> contains sub cs)"

text \<open>\<open>s.startswith(p)\<close>\<close>

definition startswith :: "string \<Rightarrow> string \<Rightarrow> bool" where
  "startswith s p = prefix p s"

text \<open>\<open>s.strip()\<close>.\<close>

definition strip :: "string \<Rightarrow> string" where
  "strip s = rev (dropWhile is_space (rev (dropWhile is_space s)))"

text \<open>\<open>s.split(sep)\<close> for a one-character separator, and \<open>sep.join(parts)\<close>.\<close>

fun split :: "char \<Rightarrow> string \<Rightarrow> string list" where
  "split sep [] = [[]]"
| "split sep (c # cs) =
     (if c = sep then [] # split sep cs
      else (case split sep cs of
              [] \<Rightarrow> [[c]]
            | l # ls \<Rightarrow> (c # l) # ls))"

fun join :: "string \<Rightarrow> string list \<Rightarrow> string" where
  "join sep [] = []"
| "join sep [p] = p"
| "join sep (p # q # ps) = p @ sep @ join sep (q # ps)"

text \<open>The decimal text of an integer, as an f-string renders it.\<close>

definition digit_char :: "nat \<Rightarrow> char" where
  "digit_char d = char_of (48 + d)"

function str_nat :: "nat \<Rightarrow> string" where
  "str_nat n = (if n < 10 then [digit_char n] else str_nat (n div 10) @ [digit_char (n mod 10)])"
  by pat_completeness auto
termination
  by (relation "measure id") auto

definition str_int :: "int \<Rightarrow> string" where
  "str_int i = (if i < 0 then CHR ''-'' # str_nat (nat (- i)) else str_nat (nat i))"

section \<open>Messages, exceptions and the observable state\<close>

text \<open>
  An exception caught by \<open>except Exception as e\<close> is known to the code only through
  \<open>str(e)\<close>.
\<close>

datatype exn = Exception string

fun str_exn :: "exn \<Rightarrow> string" where
  "str_exn (Exception m) = m"

record tool_call =
  tc_name :: string
  tc_args :: "(string \<times> string) list"
  tc_id :: string

datatype message =
    SystemMessage string
  | HumanMessage string
  | AIMessage string "tool_call list"
  | ToolMessage string string

fun content :: "message \<Rightarrow> string" where
  "content (SystemMessage c) = c"
| "content (HumanMessage c) = c"
| "content (AIMessage c tcs) = c"
| "content (ToolMessage c i) = c"

text \<open>\<open>hasattr(response, 'tool_calls') and response.tool_calls\<close>: the invocations, if any.\<close>

fun tool_calls :: "message \<Rightarrow> tool_call list" where
  "tool_calls (AIMessage c tcs) = tcs"
| "tool_calls _ = []"

text \<open>
  The collaborators (model providers, tools) are stateful, so every call threads a world
  \<open>'w\<close>. Next to it the state logs what the code does to the outside: the arguments of
  \<open>time.sleep\<close>, the number of provider invocations, the queries handed to
  \<open>run_single_agent\<close> and the documents written to the output path.
\<close>

record 'w state =
  world :: 'w
  sleeps :: "int list"
  calls :: nat
  queries :: "(string \<times> string) list"
  written :: "string list"

type_synonym 'w provider = "message list \<Rightarrow> 'w \<Rightarrow> (exn + message) \<times> 'w"

section \<open>Retry policy: \<open>AgentRunner._invoke_with_retry\<close>\<close>

definition MAX_RETRIES :: int where
  "MAX_RETRIES = 3"

definition INITIAL_WAIT_SECONDS :: int where
  "INITIAL_WAIT_SECONDS = 60"

text \<open>\<open>"429" in error_str or "rate_limit" in error_str.lower()\<close>\<close>

definition is_rate_limit :: "string \<Rightarrow> bool" where
  "is_rate_limit error_str =
     (contains ''429'' error_str \<or> contains ''rate_limit'' (lower error_str))"

definition exhausted :: "int \<Rightarrow> string \<Rightarrow> exn" where
  "exhausted max_retries error_str =
     Exception (''Rate limit: Max retries ('' @ str_int max_retries @ '') '' @
                [CHR 0xFC] @ ''berschritten. '' @ error_str)"

text \<open>One provider invocation: the world moves on and the call is counted.\<close>

definition invoke_llm ::
  "'w provider \<Rightarrow> message list \<Rightarrow> 'w state \<Rightarrow> (exn + message) \<times> 'w state" where
  "invoke_llm llm messages s =
     (case llm messages (world s) of
        (r, w) \<Rightarrow> (r, s\<lparr>world := w, calls := Suc (calls s)\<rparr>))"

definition sleep :: "int \<Rightarrow> 'w state \<Rightarrow> 'w state" where
  "sleep t s = s\<lparr>sleeps := sleeps s @ [t]\<rparr>"

text \<open>
  The body of \<open>for attempt in range(max_retries + 1)\<close>, from iteration \<open>attempt\<close> on with the
  current \<open>wait_time\<close>; past the range the loop falls through to the final \<open>raise\<close>.
\<close>

function retry_loop ::
  "'w provider \<Rightarrow> message list \<Rightarrow> int \<Rightarrow> int \<Rightarrow> int \<Rightarrow> 'w state
     \<Rightarrow> (exn + message) \<times> 'w state" where
  "retry_loop llm messages max_retries attempt wait_time s =
     (if attempt > max_retries then (Inl (Exception ''Max retries exceeded''), s)
      else
        (case invoke_llm llm messages s of
           (Inr response, s1) \<Rightarrow> (Inr response, s1)
         | (Inl e, s1) \<Rightarrow>
             (if is_rate_limit (str_exn e) then
                (if attempt < max_retries then
                   retry_loop llm messages max_retries (attempt + 1)
                     (min (wait_time * 2) 300) (sleep wait_time s1)
                 else (Inl (exhausted max_retries (str_exn e)), s1))
              else (Inl e, s1))))"
  by pat_completeness auto
termination
  by (relation "measure (\<lambda>(llm, messages, max_retries, attempt, wait_time, s).
                  nat (max_retries + 1 - attempt))") auto

definition invoke_with_retry ::
  "'w provider \<Rightarrow> message list \<Rightarrow> int \<Rightarrow> 'w state \<Rightarrow> (exn + message) \<times> 'w state" where
  "invoke_with_retry llm messages max_retries s =
     retry_loop llm messages max_retries 0 INITIAL_WAIT_SECONDS s"

declare retry_loop.simps [simp del]

section \<open>Conversation loop: \<open>AgentRunner.run\<close>\<close>

record 'w tool =
  name :: string
  invoke :: "(string \<times> string) list \<Rightarrow> 'w \<Rightarrow> (exn + string) \<times> 'w"

text \<open>
  An \<open>AgentRunner\<close> after \<open>__init__\<close>: the display name \<open>config.name\<close>, the system prompt,
  the provider \<open>llm_with_tools.invoke\<close> and the bound tools.
\<close>

record 'w agent_runner =
  config_name :: string
  system_prompt :: string
  llm_with_tools :: "'w provider"
  tools :: "'w tool list"

text \<open>
  \<open>AgentRunner.__init__\<close>, lines 38 to 41. The configuration, the model \<open>llm\<close> and the tools
  come from the collaborators; \<open>bind_tools\<close> stands for \<open>self.llm.bind_tools\<close>. Line 41 binds
  the tools only when there are some: \<open>self.llm.bind_tools(self.tools) if self.tools else
  self.llm\<close>.
\<close>

definition AgentRunner ::
  "string \<Rightarrow> string \<Rightarrow> 'w provider \<Rightarrow> ('w tool list \<Rightarrow> 'w provider) \<Rightarrow> 'w tool list
     \<Rightarrow> 'w agent_runner" where
  "AgentRunner cfg_name cfg_system_prompt llm bind_tools ts =
     \<lparr>config_name = cfg_name, system_prompt = cfg_system_prompt,
      llm_with_tools = (if ts \<noteq> [] then bind_tools ts else llm), tools = ts\<rparr>"

text \<open>A dict comprehension \<open>{k: v for ...}\<close>: a later pair replaces an earlier one.\<close>

definition dict_of :: "('k \<times> 'v) list \<Rightarrow> ('k \<rightharpoonup> 'v)" where
  "dict_of kvs = map_of (rev kvs)"

definition tools_by_name :: "'w tool list \<Rightarrow> (string \<rightharpoonup> 'w tool)" where
  "tools_by_name ts = dict_of (map (\<lambda>t. (name t, t)) ts)"

text \<open>The text that answers one tool call, lines 176 to 182.\<close>

definition tool_result ::
  "(string \<rightharpoonup> 'w tool) \<Rightarrow> tool_call \<Rightarrow> 'w state \<Rightarrow> string \<times> 'w state" where
  "tool_result tbn tc s =
     (case tbn (tc_name tc) of
        Some t \<Rightarrow>
          (case invoke t (tc_args tc) (world s) of
             (Inr r, w) \<Rightarrow> (r, s\<lparr>world := w\<rparr>)
           | (Inl e, w) \<Rightarrow>
               (''Error executing tool '' @ tc_name tc @ '': '' @ str_exn e, s\<lparr>world := w\<rparr>))
      | None \<Rightarrow> (''Unknown tool: '' @ tc_name tc, s))"

text \<open>\<open>for tool_call in response.tool_calls\<close>\<close>

fun dispatch_tools ::
  "(string \<rightharpoonup> 'w tool) \<Rightarrow> tool_call list \<Rightarrow> message list \<Rightarrow> 'w state
     \<Rightarrow> message list \<times> 'w state" where
  "dispatch_tools tbn [] messages s = (messages, s)"
| "dispatch_tools tbn (tc # tcs) messages s =
     (case tool_result tbn tc s of
        (result, s1) \<Rightarrow>
          dispatch_tools tbn tcs (messages @ [ToolMessage result (tc_id tc)]) s1)"

text \<open>
  \<open>for iteration in range(max_iterations)\<close> with the iterations left, the last
  \<open>response\<close> (unbound before the first iteration) and the history. The history is
  returned next to the result so that it can be observed.
\<close>

fun run_iterations ::
  "'w agent_runner \<Rightarrow> nat \<Rightarrow> message option \<Rightarrow> message list \<Rightarrow> 'w state
     \<Rightarrow> (exn + string) \<times> message list \<times> 'w state" where
  "run_iterations r 0 response messages s =
     (case response of
        Some resp \<Rightarrow> (Inr (content resp), messages, s)
      | None \<Rightarrow> (Inl (Exception ''UnboundLocalError''), messages, s))"
| "run_iterations r (Suc n) last_response messages s =
     (case invoke_with_retry (llm_with_tools r) messages MAX_RETRIES s of
        (Inl e, s1) \<Rightarrow> (Inl e, messages, s1)
      | (Inr response, s1) \<Rightarrow>
          (let messages1 = messages @ [response] in
           if tool_calls response \<noteq> [] then
             (case dispatch_tools (tools_by_name (tools r)) (tool_calls response) messages1 s1 of
                (messages2, s2) \<Rightarrow> run_iterations r n (Some response) messages2 s2)
           else (Inr (content response), messages1, s1)))"

definition max_iterations :: nat where
  "max_iterations = 10"

definition run_history ::
  "'w agent_runner \<Rightarrow> string \<Rightarrow> 'w state \<Rightarrow> (exn + string) \<times> message list \<times> 'w state" where
  "run_history r query s =
     run_iterations r max_iterations None
       [SystemMessage (system_prompt r), HumanMessage query] s"

definition run :: "'w agent_runner \<Rightarrow> string \<Rightarrow> 'w state \<Rightarrow> (exn + string) \<times> 'w state" where
  "run r query s = (case run_history r query s of (res, messages, s1) \<Rightarrow> (res, s1))"

section \<open>Delegation supervisor: \<open>Orchestrator.run\<close>\<close>

record 'w orchestrator =
  supervisor_prompt :: string
  supervisor_with_tools :: "'w provider"
  agent_runners :: "string \<rightharpoonup> 'w agent_runner"

text \<open>\<open>args.get(key, "")\<close>\<close>

definition get_arg :: "(string \<times> string) list \<Rightarrow> string \<Rightarrow> string" where
  "get_arg args key = (case map_of args key of Some v \<Rightarrow> v | None \<Rightarrow> [])"

text \<open>
  One delegate invocation, lines 266 to 288: the raised exception if the delegate's
  \<open>runner.run(task)\<close> raises (nothing catches it), else the history with the tool result.
\<close>

definition delegate ::
  "(string \<rightharpoonup> 'w agent_runner) \<Rightarrow> tool_call \<Rightarrow> message list \<Rightarrow> 'w state
     \<Rightarrow> exn option \<times> message list \<times> 'w state" where
  "delegate runners tc messages s =
     (let agent_name = get_arg (tc_args tc) ''agent_name'';
          task = get_arg (tc_args tc) ''task''
      in case runners agent_name of
           Some runner \<Rightarrow>
             (case run runner task s of
                (Inl e, s1) \<Rightarrow> (Some e, messages, s1)
              | (Inr result, s1) \<Rightarrow>
                  (None,
                   messages @ [ToolMessage (''['' @ config_name runner @ '']: '' @ result) (tc_id tc)],
                   s1))
         | None \<Rightarrow>
             (None,
              messages @ [ToolMessage (''Error: Unknown agent '' @ [CHR 0x27] @ agent_name @ [CHR 0x27])
                            (tc_id tc)],
              s))"

fun delegate_all ::
  "(string \<rightharpoonup> 'w agent_runner) \<Rightarrow> tool_call list \<Rightarrow> message list \<Rightarrow> 'w state
     \<Rightarrow> exn option \<times> message list \<times> 'w state" where
  "delegate_all runners [] messages s = (None, messages, s)"
| "delegate_all runners (tc # tcs) messages s =
     (case delegate runners tc messages s of
        (Some e, messages1, s1) \<Rightarrow> (Some e, messages1, s1)
      | (None, messages1, s1) \<Rightarrow> delegate_all runners tcs messages1 s1)"

text \<open>The supervisor loop; the provider is invoked directly, without the retry policy.\<close>

fun supervise ::
  "'w orchestrator \<Rightarrow> nat \<Rightarrow> message option \<Rightarrow> message list \<Rightarrow> 'w state
     \<Rightarrow> (exn + string) \<times> message list \<times> 'w state" where
  "supervise orch 0 response messages s =
     (case response of
        Some resp \<Rightarrow> (Inr (content resp), messages, s)
      | None \<Rightarrow> (Inl (Exception ''UnboundLocalError''), messages, s))"
| "supervise orch (Suc n) last_response messages s =
     (case invoke_llm (supervisor_with_tools orch) messages s of
        (Inl e, s1) \<Rightarrow> (Inl e, messages, s1)
      | (Inr response, s1) \<Rightarrow>
          (let messages1 = messages @ [response] in
           if tool_calls response \<noteq> [] then
             (case delegate_all (agent_runners orch) (tool_calls response) messages1 s1 of
                (Some e, messages2, s2) \<Rightarrow> (Inl e, messages2, s2)
              | (None, messages2, s2) \<Rightarrow> supervise orch n (Some response) messages2 s2)
           else (Inr (content response), messages1, s1)))"

definition orchestrator_run_history ::
  "'w orchestrator \<Rightarrow> string \<Rightarrow> 'w state \<Rightarrow> (exn + string) \<times> message list \<times> 'w state" where
  "orchestrator_run_history orch query s =
     supervise orch max_iterations None
       [SystemMessage (supervisor_prompt orch), HumanMessage query] s"

definition orchestrator_run ::
  "'w orchestrator \<Rightarrow> string \<Rightarrow> 'w state \<Rightarrow> (exn + string) \<times> 'w state" where
  "orchestrator_run orch query s =
     (case orchestrator_run_history orch query s of (res, messages, s1) \<Rightarrow> (res, s1))"

section \<open>Writing answers back: \<open>write_answers_to_markdown\<close>\<close>

record question =
  number :: int
  agent :: string
  qtext :: string
  line_index :: int
  original_line :: string

record answer =
  question_number :: int
  question_line :: string
  question_text :: string
  answer_text :: string

text \<open>
  \<open>QUESTION_PATTERN.match(s)\<close> succeeds or not, for
  \<open>^(\d+)\.\s+(?:@(\w+)\s+)?(.+)$\<close> with \<open>re.MULTILINE\<close>: digits, a dot, a whitespace
  character, and after it (behind any further whitespace) a character other than a
  newline for \<open>(.+)\<close>. The optional mention adds no match, as \<open>(.+)\<close> takes an \<open>@\<close> too.
\<close>

definition question_match :: "string \<Rightarrow> bool" where
  "question_match s =
     (takeWhile is_digit s \<noteq> [] \<and>
      (case dropWhile is_digit s of
         c # w # t \<Rightarrow> c = CHR ''.'' \<and> is_space w \<and> list_ex (\<lambda>x. x \<noteq> NL) t
       | _ \<Rightarrow> False))"

text \<open>The inner \<open>while\<close> of line 301, from index \<open>j\<close>; the result is the index it stops at.\<close>

function skip_old :: "string list \<Rightarrow> nat \<Rightarrow> nat" where
  "skip_old lines j =
     (if j < length lines \<and> (strip (lines ! j) = [] \<or> startswith (lines ! j) ''   '') then
        (if strip (lines ! j) \<noteq> [] \<and> question_match (strip (lines ! j)) then j
         else skip_old lines (j + 1))
      else j)"
  by pat_completeness auto
termination
  by (relation "measure (\<lambda>(lines, j). length lines - j)") auto

declare skip_old.simps [simp del]

lemma skip_old_ge: "j \<le> skip_old lines j"
proof (induction lines j rule: skip_old.induct)
  case (1 lines j)
  show ?case
  proof (cases "j < length lines \<and> (strip (lines ! j) = [] \<or> startswith (lines ! j) ''   '')")
    case False
    then have "skip_old lines j = j"
      using skip_old.simps [of lines j] by auto
    then show ?thesis by simp
  next
    case c: True
    show ?thesis
    proof (cases "strip (lines ! j) \<noteq> [] \<and> question_match (strip (lines ! j))")
      case True
      with c have "skip_old lines j = j"
        using skip_old.simps [of lines j] by auto
      then show ?thesis by simp
    next
      case False
      from "1.IH" [OF c False] have "j + 1 \<le> skip_old lines (j + 1)" .
      moreover from c False have "skip_old lines j = skip_old lines (j + 1)"
        using skip_old.simps [of lines j] by auto
      ultimately show ?thesis by simp
    qed
  qed
qed

text \<open>The \<open>while\<close> of line 292 that skips an existing answer block.\<close>

function skip_block :: "string list \<Rightarrow> nat \<Rightarrow> nat" where
  "skip_block lines j =
     (if j < length lines then
        (let next_line = lines ! j in
         if strip next_line \<noteq> [] \<and> question_match (strip next_line) then j
         else if startswith (strip next_line) ''**Antwort:**'' \<or> startswith (strip next_line) ''###''
           then skip_block lines (skip_old lines (j + 1))
         else if strip next_line = [] then skip_block lines (j + 1)
         else j)
      else j)"
  by pat_completeness auto
termination
proof (relation "measure (\<lambda>(lines, j). length lines - j)")
  show "wf (measure (\<lambda>(lines, j). length lines - j))"
    by simp
next
  fix lines :: "string list" and j :: nat and next_line :: string
  assume "j < length lines"
  moreover have "j + 1 \<le> skip_old lines (j + 1)"
    by (rule skip_old_ge)
  ultimately show "((lines, skip_old lines (j + 1)), lines, j)
      \<in> measure (\<lambda>(lines, j). length lines - j)"
    by simp
next
  fix lines :: "string list" and j :: nat and next_line :: string
  assume "j < length lines"
  then show "((lines, j + 1), lines, j) \<in> measure (\<lambda>(lines, j). length lines - j)"
    by simp
qed

declare skip_block.simps [simp del]

lemma skip_block_ge: "j \<le> skip_block lines j"
proof (induction lines j rule: skip_block.induct)
  case (1 lines j)
  have a: "j + 1 \<le> skip_old lines (j + 1)"
    by (rule skip_old_ge)
  show ?case
  proof (cases "j < length lines")
    case False
    then have "skip_block lines j = j"
      using skip_block.simps [of lines j] by simp
    then show ?thesis by simp
  next
    case lt: True
    show ?thesis
    proof (cases "strip (lines ! j) \<noteq> [] \<and> question_match (strip (lines ! j))")
      case True
      with lt have "skip_block lines j = j"
        using skip_block.simps [of lines j] by (auto simp: Let_def)
      then show ?thesis by simp
    next
      case nq: False
      show ?thesis
      proof (cases "startswith (strip (lines ! j)) ''**Antwort:**'' \<or>
                    startswith (strip (lines ! j)) ''###''")
        case True
        from "1.IH" (1) [OF lt refl nq True]
        have "skip_old lines (j + 1) \<le> skip_block lines (skip_old lines (j + 1))" .
        moreover from lt nq True
        have "skip_block lines j = skip_block lines (skip_old lines (j + 1))"
          using skip_block.simps [of lines j] by (auto simp: Let_def)
        ultimately show ?thesis using a by simp
      next
        case no: False
        show ?thesis
        proof (cases "strip (lines ! j) = []")
          case True
          from "1.IH" (2) [OF lt refl nq no True]
          have "j + 1 \<le> skip_block lines (j + 1)" .
          moreover from lt nq no True
          have "skip_block lines j = skip_block lines (j + 1)"
            using skip_block.simps [of lines j] by (auto simp: Let_def)
          ultimately show ?thesis by simp
        next
          case False
          with lt nq no have "skip_block lines j = j"
            using skip_block.simps [of lines j] by (auto simp: Let_def)
          then show ?thesis by simp
        qed
      qed
    qed
  qed
qed

text \<open>The main \<open>while i < len(lines)\<close>, with \<open>result_lines\<close> as accumulator.\<close>

function write_loop ::
  "(string \<rightharpoonup> answer) \<Rightarrow> string list \<Rightarrow> nat \<Rightarrow> string list \<Rightarrow> string list" where
  "write_loop answer_map lines i result_lines =
     (if i < length lines then
        (let line = lines ! i; stripped = strip line in
         case answer_map stripped of
           Some a \<Rightarrow>
             (let j = skip_block lines (i + 1) in
              write_loop answer_map lines (j - 1 + 1)
                (result_lines @ [''### '' @ question_text a, [], answer_text a, []]))
         | None \<Rightarrow> write_loop answer_map lines (i + 1) (result_lines @ [line]))
      else result_lines)"
  by pat_completeness auto
termination
  apply (relation "measure (\<lambda>(answer_map, lines, i, result_lines). length lines - i)")
    apply simp_all
  subgoal for answer_map lines i
    using skip_block_ge [of "Suc i" lines] by simp
  done

declare write_loop.simps [simp del]

definition answer_map_of :: "answer list \<Rightarrow> (string \<rightharpoonup> answer)" where
  "answer_map_of answers = dict_of (map (\<lambda>a. (strip (question_line a), a)) answers)"

definition result_lines_of :: "string \<Rightarrow> answer list \<Rightarrow> string list" where
  "result_lines_of original_content answers =
     write_loop (answer_map_of answers) (split NL original_content) 0 []"

definition write_answers_to_markdown :: "string \<Rightarrow> answer list \<Rightarrow> string" where
  "write_answers_to_markdown original_content answers =
     join [NL] (result_lines_of original_content answers)"

section \<open>Sequential pipeline: \<open>process_questions\<close>\<close>

definition format_previous_answers :: "answer list \<Rightarrow> string" where
  "format_previous_answers answers =
     (if answers = [] then []
      else join [NL]
             ((''Bisherige Fragen und Antworten:'' @ [NL]) #
              map (\<lambda>a. ''### '' @ question_text a @ [NL] @ answer_text a @ [NL]) answers))"

text \<open>The two f-strings of lines 202 to 219; a non-empty string is true.\<close>

definition full_query_of :: "string \<Rightarrow> string \<Rightarrow> string \<Rightarrow> string" where
  "full_query_of context previous_answers_context question =
     (if previous_answers_context \<noteq> [] then
        ''Kontext:'' @ [NL] @ context @ [NL, NL] @ previous_answers_context @ [NL, NL] @
        ''Aktuelle Frage:'' @ [NL] @ question @ [NL, NL] @
        ''Bitte beantworte die Frage basierend auf dem Kontext und den bisherigen Antworten.''
      else
        ''Kontext:'' @ [NL] @ context @ [NL, NL] @
        ''Frage:'' @ [NL] @ question @ [NL, NL] @
        ''Bitte beantworte die Frage basierend auf dem gegebenen Kontext.'')"

text \<open>
  \<open>run_single_agent\<close>: \<open>AgentRunner(agent_name, ...)\<close> is the parameter \<open>mk\<close>, which fails where
  the configuration lookup or the provider construction raises; then \<open>runner.run(query)\<close>.
  The query is logged.
\<close>

definition run_single_agent ::
  "(string \<Rightarrow> exn + 'w agent_runner) \<Rightarrow> string \<Rightarrow> string \<Rightarrow> 'w state
     \<Rightarrow> (exn + string) \<times> 'w state" where
  "run_single_agent mk agent_name query s =
     (let s0 = s\<lparr>queries := queries s @ [(agent_name, query)]\<rparr> in
      case mk agent_name of
        Inl e \<Rightarrow> (Inl e, s0)
      | Inr runner \<Rightarrow> run runner query s0)"

text \<open>
  \<open>for q in questions\<close> with the answers so far. \<open>output_path.write_text\<close> is logged in
  \<open>written\<close>; a failing write is outside the model.
\<close>

fun process_loop ::
  "(string \<Rightarrow> exn + 'w agent_runner) \<Rightarrow> string \<Rightarrow> string option \<Rightarrow> string option
     \<Rightarrow> question list \<Rightarrow> answer list \<Rightarrow> 'w state \<Rightarrow> answer list \<times> 'w state" where
  "process_loop mk context output_path original_content [] answers s = (answers, s)"
| "process_loop mk context output_path original_content (q # qs) answers s =
     (let previous_answers_context = format_previous_answers answers;
          full_query = full_query_of context previous_answers_context (qtext q)
      in case (case run_single_agent mk (agent q) full_query s of
                 (Inr r, s1) \<Rightarrow> (r, s1)
               | (Inl e, s1) \<Rightarrow> (''Fehler bei der Verarbeitung: '' @ str_exn e, s1)) of
           (response, s1) \<Rightarrow>
             (let answers1 = answers @
                    [\<lparr>question_number = number q, question_line = original_line q,
                      question_text = qtext q, answer_text = response\<rparr>];
                  s2 = (case (output_path, original_content) of
                          (Some path, Some original) \<Rightarrow>
                            (if original \<noteq> [] then
                               s1\<lparr>written := written s1 @
                                                [write_answers_to_markdown original answers1]\<rparr>
                             else s1)
                        | _ \<Rightarrow> s1)
              in process_loop mk context output_path original_content qs answers1 s2))"

definition process_questions ::
  "(string \<Rightarrow> exn + 'w agent_runner) \<Rightarrow> string \<Rightarrow> question list \<Rightarrow> string option
     \<Rightarrow> string option \<Rightarrow> 'w state \<Rightarrow> answer list \<times> 'w state" where
  "process_questions mk context questions output_path original_content s =
     process_loop mk context output_path original_content questions [] s"

section \<open>Example collaborators\<close>

text \<open>
  Stub providers over a world that counts the calls made, as a test would write them,
  and the empty initial state.
\<close>

definition s0 :: "nat state" where
  "s0 = \<lparr>world = 0, sleeps = [], calls = 0, queries = [], written = []\<rparr>"

definition rate_limited :: exn where
  "rate_limited = Exception ''Error code: 429''"

definition stub_twice :: "nat provider" where
  "stub_twice messages w =
     (if w < 2 then Inl rate_limited else Inr (AIMessage ''payload'' []), Suc w)"

definition stub_always :: "nat provider" where
  "stub_always messages w = (Inl rate_limited, Suc w)"

section \<open>Properties of the retry policy\<close>

text \<open>The waits of \<open>n\<close> successive retries that start at \<open>w\<close>.\<close>

fun backoff :: "int \<Rightarrow> nat \<Rightarrow> int list" where
  "backoff w 0 = []"
| "backoff w (Suc n) = w # backoff (min (w * 2) 300) n"

lemma invoke_llm_eq:
  "llm messages (world s) = (r, w) \<Longrightarrow>
   invoke_llm llm messages s = (r, s\<lparr>world := w, calls := Suc (calls s)\<rparr>)"
  by (simp add: invoke_llm_def)

lemma retry_loop_sleeps:
  "\<exists>n. sleeps (snd (retry_loop llm messages mr a w s)) = sleeps s @ backoff w n \<and>
       int n \<le> max 0 (mr - a)"
proof (induction llm messages mr a w s rule: retry_loop.induct)
  case (1 llm messages mr a w s)
  obtain r s1 where inv: "invoke_llm llm messages s = (r, s1)"
    by (cases "invoke_llm llm messages s")
  have s1: "sleeps s1 = sleeps s"
    using inv by (auto simp: invoke_llm_def split: prod.splits)
  show ?case
  proof (cases "\<not> a > mr \<and> (\<exists>e. r = Inl e \<and> is_rate_limit (str_exn e)) \<and> a < mr")
    case True
    then obtain e where e: "r = Inl e" "is_rate_limit (str_exn e)" and lt: "a < mr" "\<not> a > mr"
      by auto
    from "1.IH" [OF lt(2) inv [symmetric] e(1) e(2) lt(1)]
    obtain n where n: "sleeps (snd (retry_loop llm messages mr (a + 1) (min (w * 2) 300) (sleep w s1)))
        = sleeps (sleep w s1) @ backoff (min (w * 2) 300) n" "int n \<le> max 0 (mr - (a + 1))"
      by blast
    have eq: "retry_loop llm messages mr a w s =
       retry_loop llm messages mr (a + 1) (min (w * 2) 300) (sleep w s1)"
      using inv e lt by (subst retry_loop.simps) simp
    have "sleeps (snd (retry_loop llm messages mr a w s)) = sleeps s @ backoff w (Suc n)"
      using n(1) s1 by (simp add: eq sleep_def)
    moreover have "int (Suc n) \<le> max 0 (mr - a)"
      using n(2) lt by simp
    ultimately show ?thesis by blast
  next
    case False
    then have "sleeps (snd (retry_loop llm messages mr a w s)) = sleeps s"
      using inv s1 by (subst retry_loop.simps) (auto split: sum.splits)
    then have "sleeps (snd (retry_loop llm messages mr a w s)) = sleeps s @ backoff w 0 \<and>
       int 0 \<le> max 0 (mr - a)"
      by simp
    then show ?thesis by blast
  qed
qed


lemma backoff_length: "length (backoff w n) = n"
  by (induction n arbitrary: w) auto

lemma backoff_hd: "0 < n \<Longrightarrow> backoff w n ! 0 = w"
  by (cases n) auto

lemma backoff_step: "Suc i < n \<Longrightarrow> backoff w n ! Suc i = min (2 * backoff w n ! i) 300"
proof (induction n arbitrary: w i)
  case 0
  then show ?case by simp
next
  case (Suc n)
  show ?case
  proof (cases i)
    case 0
    with Suc.prems have "0 < n" by simp
    then show ?thesis using 0 by (simp add: backoff_hd mult.commute)
  next
    case (Suc k)
    with Suc.prems have "Suc k < n" by simp
    from Suc.IH [OF this] show ?thesis using Suc by simp
  qed
qed

lemma retry_loop_exhaust:
  "\<forall>w. \<exists>e w'. llm messages w = (Inl e, w') \<and> is_rate_limit (str_exn e) \<Longrightarrow> a \<le> mr \<Longrightarrow>
    \<exists>e s'. retry_loop llm messages mr a w s = (Inl (exhausted mr (str_exn e)), s') \<and>
      is_rate_limit (str_exn e) \<and>
      sleeps s' = sleeps s @ backoff w (nat (mr - a)) \<and>
      calls s' = calls s + nat (mr - a) + 1"
proof (induction llm messages mr a w s rule: retry_loop.induct)
  case (1 llm messages mr a w s)
  note always = "1.prems" (1)
  from always obtain e w' where e: "llm messages (world s) = (Inl e, w')" "is_rate_limit (str_exn e)"
    by blast
  define s1 where "s1 = s\<lparr>world := w', calls := Suc (calls s)\<rparr>"
  have inv: "invoke_llm llm messages s = (Inl e, s1)"
    using e(1) by (simp add: invoke_llm_eq s1_def)
  show ?case
  proof (cases "a < mr")
    case True
    have na: "\<not> mr < a" using True by simp
    have le: "a + 1 \<le> mr" using True by simp
    from "1.IH" [OF na inv [symmetric] refl e(2) True always le]
    obtain e' s' where r: "retry_loop llm messages mr (a + 1) (min (w * 2) 300) (sleep w s1)
        = (Inl (exhausted mr (str_exn e')), s')" "is_rate_limit (str_exn e')"
       "sleeps s' = sleeps (sleep w s1) @ backoff (min (w * 2) 300) (nat (mr - (a + 1)))"
       "calls s' = calls (sleep w s1) + nat (mr - (a + 1)) + 1"
      by blast
    have eq: "retry_loop llm messages mr a w s =
       retry_loop llm messages mr (a + 1) (min (w * 2) 300) (sleep w s1)"
      using inv e True by (subst retry_loop.simps) simp
    have n: "nat (mr - a) = Suc (nat (mr - (a + 1)))"
      using True by simp
    have "sleeps s' = sleeps s @ backoff w (nat (mr - a))"
      using r(3) by (simp add: n sleep_def s1_def)
    moreover have "calls s' = calls s + nat (mr - a) + 1"
      using r(4) by (simp add: n sleep_def s1_def)
    ultimately show ?thesis using r(1,2) eq by auto
  next
    case False
    with "1.prems" (2) have am: "a = mr" by simp
    have "retry_loop llm messages mr a w s = (Inl (exhausted mr (str_exn e)), s1)"
      using inv e am by (subst retry_loop.simps) simp
    moreover have "sleeps s1 = sleeps s @ backoff w (nat (mr - a))"
      using am by (simp add: s1_def)
    moreover have "calls s1 = calls s + nat (mr - a) + 1"
      using am by (simp add: s1_def)
    ultimately show ?thesis using e(2) by blast
  qed
qed

lemma rate_limited_signal: "is_rate_limit (str_exn rate_limited)"
  by (simp add: rate_limited_def is_rate_limit_def)

lemma str_int_3: "str_int 3 = ''3''"
  by code_simp

lemma exhausted_3:
  "exhausted 3 error_str =
     Exception (''Rate limit: Max retries (3) '' @ [CHR 0xFC] @ ''berschritten. '' @ error_str)"
  by (simp add: exhausted_def str_int_3)

lemma retry_four_failures:
  assumes "llm messages (world s) = (Inl f1, v1)" and "is_rate_limit (str_exn f1)"
    and "llm messages v1 = (Inl f2, v2)" and "is_rate_limit (str_exn f2)"
    and "llm messages v2 = (Inl f3, v3)" and "is_rate_limit (str_exn f3)"
    and "llm messages v3 = (Inl f4, v4)" and "is_rate_limit (str_exn f4)"
  shows "invoke_with_retry llm messages 3 s =
    (Inl (exhausted 3 (str_exn f4)),
     s\<lparr>world := v4, sleeps := sleeps s @ [60, 120, 240], calls := calls s + 4\<rparr>)"
  using assms
  by (simp add: invoke_with_retry_def INITIAL_WAIT_SECONDS_def retry_loop.simps
      invoke_llm_def sleep_def)

text \<open>
  Claim C2. With \<open>max_retries = 3\<close>: a provider that fails with a rate-limit signal twice
  and then succeeds makes \<open>invoke_with_retry\<close> return its payload after exactly the two
  sleeps 60 and 120. A provider that fails with a rate-limit signal on every attempt, four
  in all, makes it sleep exactly 60, 120 and 240 and then raise the error whose text is
  \<open>Rate limit: Max retries (3) ueberschritten.\<close> (with the umlaut) followed by the text of the
  last failure; nothing is slept after the fourth failure. For every provider and
  \<open>max_retries\<close> the sleeps start at 60 and each is the previous one doubled, capped at 300.
\<close>

theorem invoke_with_retry_backoff:
  "(llm messages (world s) = (Inl e1, w1) \<and> is_rate_limit (str_exn e1) \<and>
    llm messages w1 = (Inl e2, w2) \<and> is_rate_limit (str_exn e2) \<and>
    llm messages w2 = (Inr payload, w3) \<longrightarrow>
      invoke_with_retry llm messages 3 s =
        (Inr payload, s\<lparr>world := w3, sleeps := sleeps s @ [60, 120], calls := calls s + 3\<rparr>)) \<and>
   (llm messages (world s) = (Inl f1, v1) \<and> is_rate_limit (str_exn f1) \<and>
    llm messages v1 = (Inl f2, v2) \<and> is_rate_limit (str_exn f2) \<and>
    llm messages v2 = (Inl f3, v3) \<and> is_rate_limit (str_exn f3) \<and>
    llm messages v3 = (Inl f4, v4) \<and> is_rate_limit (str_exn f4) \<longrightarrow>
      invoke_with_retry llm messages 3 s =
        (Inl (Exception (''Rate limit: Max retries (3) '' @ [CHR 0xFC] @ ''berschritten. '' @
                         str_exn f4)),
         s\<lparr>world := v4, sleeps := sleeps s @ [60, 120, 240], calls := calls s + 4\<rparr>)) \<and>
   (\<exists>ws. sleeps (snd (invoke_with_retry llm messages max_retries s)) = sleeps s @ ws \<and>
      int (length ws) \<le> max 0 max_retries \<and>
      (ws \<noteq> [] \<longrightarrow> ws ! 0 = 60) \<and>
      (\<forall>i. Suc i < length ws \<longrightarrow> ws ! Suc i = min (2 * ws ! i) 300))"
proof (intro conjI impI)
  assume a: "llm messages (world s) = (Inl e1, w1) \<and> is_rate_limit (str_exn e1) \<and>
    llm messages w1 = (Inl e2, w2) \<and> is_rate_limit (str_exn e2) \<and>
    llm messages w2 = (Inr payload, w3)"
  show "invoke_with_retry llm messages 3 s =
        (Inr payload, s\<lparr>world := w3, sleeps := sleeps s @ [60, 120], calls := calls s + 3\<rparr>)"
    using a
    by (simp add: invoke_with_retry_def INITIAL_WAIT_SECONDS_def retry_loop.simps
        invoke_llm_def sleep_def)
next
  assume a: "llm messages (world s) = (Inl f1, v1) \<and> is_rate_limit (str_exn f1) \<and>
    llm messages v1 = (Inl f2, v2) \<and> is_rate_limit (str_exn f2) \<and>
    llm messages v2 = (Inl f3, v3) \<and> is_rate_limit (str_exn f3) \<and>
    llm messages v3 = (Inl f4, v4) \<and> is_rate_limit (str_exn f4)"
  then have "invoke_with_retry llm messages 3 s =
    (Inl (exhausted 3 (str_exn f4)),
     s\<lparr>world := v4, sleeps := sleeps s @ [60, 120, 240], calls := calls s + 4\<rparr>)"
    using retry_four_failures [of llm messages s f1 v1 f2 v2 f3 v3 f4 v4] by simp
  then show "invoke_with_retry llm messages 3 s =
        (Inl (Exception (''Rate limit: Max retries (3) '' @ [CHR 0xFC] @ ''berschritten. '' @
                         str_exn f4)),
         s\<lparr>world := v4, sleeps := sleeps s @ [60, 120, 240], calls := calls s + 4\<rparr>)"
    by (simp only: exhausted_3)
next
  from retry_loop_sleeps [of llm messages max_retries 0 60 s]
  obtain n where n: "sleeps (snd (invoke_with_retry llm messages max_retries s)) =
      sleeps s @ backoff 60 n" "int n \<le> max 0 max_retries"
    by (auto simp: invoke_with_retry_def INITIAL_WAIT_SECONDS_def)
  have "int (length (backoff 60 n)) \<le> max 0 max_retries"
    using n(2) by (simp add: backoff_length)
  moreover have "backoff 60 n \<noteq> [] \<longrightarrow> backoff 60 n ! 0 = 60"
    by (cases n) auto
  moreover have "\<forall>i. Suc i < length (backoff 60 n) \<longrightarrow>
      backoff 60 n ! Suc i = min (2 * backoff 60 n ! i) 300"
    by (simp add: backoff_length backoff_step)
  ultimately show "\<exists>ws. sleeps (snd (invoke_with_retry llm messages max_retries s)) = sleeps s @ ws \<and>
      int (length ws) \<le> max 0 max_retries \<and>
      (ws \<noteq> [] \<longrightarrow> ws ! 0 = 60) \<and>
      (\<forall>i. Suc i < length ws \<longrightarrow> ws ! Suc i = min (2 * ws ! i) 300)"
    using n(1) by blast
qed

theorem invoke_with_retry_backoff_witness:
  "invoke_with_retry stub_twice [] 3 s0 =
     (Inr (AIMessage ''payload'' []), s0\<lparr>world := 3, sleeps := [60, 120], calls := 3\<rparr>) \<and>
   invoke_with_retry stub_always [] 3 s0 =
     (Inl (Exception (''Rate limit: Max retries (3) '' @ [CHR 0xFC] @
                      ''berschritten. Error code: 429'')),
      s0\<lparr>world := 4, sleeps := [60, 120, 240], calls := 4\<rparr>)"
proof -
  have twice: "stub_twice [] (world s0) = (Inl rate_limited, 1) \<and>
      is_rate_limit (str_exn rate_limited) \<and>
      stub_twice [] 1 = (Inl rate_limited, 2) \<and> is_rate_limit (str_exn rate_limited) \<and>
      stub_twice [] 2 = (Inr (AIMessage ''payload'' []), 3)"
    by (simp add: stub_twice_def s0_def rate_limited_signal)
  have always: "stub_always [] (world s0) = (Inl rate_limited, 1) \<and>
      is_rate_limit (str_exn rate_limited) \<and>
      stub_always [] 1 = (Inl rate_limited, 2) \<and> is_rate_limit (str_exn rate_limited) \<and>
      stub_always [] 2 = (Inl rate_limited, 3) \<and> is_rate_limit (str_exn rate_limited) \<and>
      stub_always [] 3 = (Inl rate_limited, 4) \<and> is_rate_limit (str_exn rate_limited)"
    by (simp add: stub_always_def s0_def rate_limited_signal)
  have a: "invoke_with_retry stub_twice [] 3 s0 =
     (Inr (AIMessage ''payload'' []), s0\<lparr>world := 3, sleeps := [60, 120], calls := 3\<rparr>)"
    using twice
      invoke_with_retry_backoff [where llm = stub_twice and messages = "[]" and s = s0
        and ?e1.0 = rate_limited and ?w1.0 = 1 and ?e2.0 = rate_limited and ?w2.0 = 2
        and payload = "AIMessage ''payload'' []" and ?w3.0 = 3]
    by (simp add: s0_def)
  have b: "invoke_with_retry stub_always [] 3 s0 =
     (Inl (Exception (''Rate limit: Max retries (3) '' @ [CHR 0xFC] @
                      ''berschritten. Error code: 429'')),
      s0\<lparr>world := 4, sleeps := [60, 120, 240], calls := 4\<rparr>)"
    using always
      invoke_with_retry_backoff [where llm = stub_always and messages = "[]" and s = s0
        and ?f1.0 = rate_limited and ?v1.0 = 1 and ?f2.0 = rate_limited and ?v2.0 = 2
        and ?f3.0 = rate_limited and ?v3.0 = 3 and ?f4.0 = rate_limited and ?v4.0 = 4]
    by (simp add: s0_def rate_limited_def)
  from a b show ?thesis by blast
qed

text \<open>A provider that always fails without a rate-limit signal.\<close>

definition fatal :: exn where
  "fatal = Exception ''Error code: 500''"

definition stub_fatal :: "nat provider" where
  "stub_fatal messages w = (Inl fatal, Suc w)"

lemma fatal_signal: "\<not> is_rate_limit (str_exn fatal)"
  by (simp add: fatal_def is_rate_limit_def lower_def lower_char_def)

lemma retry_loop_calls:
  "calls s + (if a \<le> mr then 1 else 0) \<le> calls (snd (retry_loop llm messages mr a w s))"
proof (induction llm messages mr a w s rule: retry_loop.induct)
  case (1 llm messages mr a w s)
  obtain r s1 where inv: "invoke_llm llm messages s = (r, s1)"
    by (cases "invoke_llm llm messages s")
  have s1: "calls s1 = Suc (calls s)"
    using inv by (auto simp: invoke_llm_def split: prod.splits)
  show ?case
  proof (cases "\<not> a > mr \<and> (\<exists>e. r = Inl e \<and> is_rate_limit (str_exn e)) \<and> a < mr")
    case True
    then obtain e where e: "r = Inl e" "is_rate_limit (str_exn e)" and lt: "a < mr" "\<not> a > mr"
      by auto
    have eq: "retry_loop llm messages mr a w s =
       retry_loop llm messages mr (a + 1) (min (w * 2) 300) (sleep w s1)"
      using inv e lt by (subst retry_loop.simps) simp
    from "1.IH" [OF lt(2) inv [symmetric] e(1) e(2) lt(1)] lt(1)
    have "calls (sleep w s1) + 1 \<le> calls (snd (retry_loop llm messages mr a w s))"
      by (simp add: eq)
    then show ?thesis using s1 by (simp add: sleep_def)
  next
    case False
    then have "calls (snd (retry_loop llm messages mr a w s)) =
        (if a > mr then calls s else calls s1)"
      using inv by (subst retry_loop.simps) (auto split: sum.splits)
    then show ?thesis using s1 by simp
  qed
qed

text \<open>
  What the loop does with a failure, by the test of line 112: without the signal it is
  raised as it is, with no sleep and no further call; with the signal the loop sleeps the
  current wait and invokes the provider again as long as \<open>attempt < max_retries\<close>, and raises
  the retries-exhausted error on the last iteration.
\<close>

lemma retry_loop_on_failure:
  assumes fail: "llm messages (world s) = (Inl e, w)"
    and att: "attempt \<le> max_retries"
  shows "(\<not> is_rate_limit (str_exn e) \<longrightarrow>
            retry_loop llm messages max_retries attempt wait_time s =
              (Inl e, s\<lparr>world := w, calls := Suc (calls s)\<rparr>)) \<and>
         (is_rate_limit (str_exn e) \<and> attempt < max_retries \<longrightarrow>
            (\<exists>ws. sleeps (snd (retry_loop llm messages max_retries attempt wait_time s)) =
                     sleeps s @ wait_time # ws)) \<and>
         (is_rate_limit (str_exn e) \<and> attempt = max_retries \<longrightarrow>
            retry_loop llm messages max_retries attempt wait_time s =
              (Inl (exhausted max_retries (str_exn e)), s\<lparr>world := w, calls := Suc (calls s)\<rparr>)) \<and>
         (calls s + 2 \<le> calls (snd (retry_loop llm messages max_retries attempt wait_time s))
            \<longleftrightarrow> is_rate_limit (str_exn e) \<and> attempt < max_retries)"
proof -
  define s1 where "s1 = s\<lparr>world := w, calls := Suc (calls s)\<rparr>"
  let ?res = "retry_loop llm messages max_retries attempt wait_time s"
  have inv: "invoke_llm llm messages s = (Inl e, s1)"
    using fail by (simp add: invoke_llm_eq s1_def)
  have fatal: "?res = (Inl e, s1)" if "\<not> is_rate_limit (str_exn e)"
    using inv att that by (subst retry_loop.simps) simp
  have last: "?res = (Inl (exhausted max_retries (str_exn e)), s1)"
    if "is_rate_limit (str_exn e)" "attempt = max_retries"
    using inv that by (subst retry_loop.simps) simp
  have again: "?res = retry_loop llm messages max_retries (attempt + 1)
      (min (wait_time * 2) 300) (sleep wait_time s1)"
    if "is_rate_limit (str_exn e)" "attempt < max_retries"
    using inv that by (subst retry_loop.simps) simp
  have slept: "\<exists>ws. sleeps (snd ?res) = sleeps s @ wait_time # ws"
    if r: "is_rate_limit (str_exn e)" "attempt < max_retries"
  proof -
    from retry_loop_sleeps [of llm messages max_retries "attempt + 1"
        "min (wait_time * 2) 300" "sleep wait_time s1"]
    obtain n where "sleeps (snd ?res) =
        sleeps (sleep wait_time s1) @ backoff (min (wait_time * 2) 300) n"
      using again [OF r] by auto
    then show ?thesis by (simp add: sleep_def s1_def)
  qed
  have called: "calls s + 2 \<le> calls (snd ?res)"
    if r: "is_rate_limit (str_exn e)" "attempt < max_retries"
  proof -
    from retry_loop_calls [of "sleep wait_time s1" "attempt + 1" max_retries llm messages
        "min (wait_time * 2) 300"] r(2)
    have "calls (sleep wait_time s1) + 1 \<le> calls (snd ?res)"
      using again [OF r] by simp
    then show ?thesis by (simp add: sleep_def s1_def)
  qed
  have once: "calls (snd ?res) = calls s + 1"
    if "\<not> (is_rate_limit (str_exn e) \<and> attempt < max_retries)"
  proof (cases "is_rate_limit (str_exn e)")
    case True
    with that att have "attempt = max_retries" by simp
    from last [OF True this] show ?thesis by (simp add: s1_def)
  next
    case False
    from fatal [OF this] show ?thesis by (simp add: s1_def)
  qed
  have iff: "calls s + 2 \<le> calls (snd ?res)
      \<longleftrightarrow> is_rate_limit (str_exn e) \<and> attempt < max_retries"
    using called once by force
  show ?thesis
    using fatal last slept iff unfolding s1_def by blast
qed

text \<open>
  A failure that is no rate limit, with the characters \<open>429\<close> in its text: the request is
  refused with HTTP 400 because the prompt has 204293 tokens.
\<close>

definition prompt_too_long :: exn where
  "prompt_too_long =
     Exception ''Error code: 400 - prompt is too long: 204293 tokens > 200000 maximum''"

definition stub_too_long :: "nat provider" where
  "stub_too_long messages w = (Inl prompt_too_long, Suc w)"

lemma too_long_signal: "is_rate_limit (str_exn prompt_too_long)"
  by (simp add: prompt_too_long_def is_rate_limit_def)

text \<open>
  Claim C4 does not hold of the code: the test of line 112 looks for \<open>429\<close> anywhere in the
  text of the failure, so this failure, which signals no rate limit, is not raised at once.
  The loop sleeps 60, 120 and 240 seconds, sends the refused request four times, and in the
  end raises the retries-exhausted error in place of the failure.
\<close>

theorem non_rate_limit_failure_retried:
  "invoke_with_retry stub_too_long [] MAX_RETRIES s0 =
     (Inl (Exception (''Rate limit: Max retries (3) '' @ [CHR 0xFC] @ ''berschritten. '' @
             ''Error code: 400 - prompt is too long: 204293 tokens > 200000 maximum'')),
      s0\<lparr>world := 4, sleeps := [60, 120, 240], calls := 4\<rparr>)"
proof -
  have "stub_too_long [] (world s0) = (Inl prompt_too_long, 1)"
    "stub_too_long [] 1 = (Inl prompt_too_long, 2)"
    "stub_too_long [] 2 = (Inl prompt_too_long, 3)"
    "stub_too_long [] 3 = (Inl prompt_too_long, 4)"
    by (simp_all add: stub_too_long_def s0_def)
  from retry_four_failures [where llm = stub_too_long and messages = "[]" and s = s0,
      OF this(1) too_long_signal this(2) too_long_signal
      this(3) too_long_signal this(4) too_long_signal]
  show ?thesis
    by (simp add: MAX_RETRIES_def exhausted_3 s0_def prompt_too_long_def)
qed

definition tool_ping :: "nat tool" where
  "tool_ping = \<lparr>name = ''ping'', invoke = (\<lambda>args w. (Inr ''pong'', w))\<rparr>"

definition tool_boom :: "nat tool" where
  "tool_boom = \<lparr>name = ''boom'', invoke = (\<lambda>args w. (Inl (Exception ''bad input''), w))\<rparr>"

definition three_calls :: "tool_call list" where
  "three_calls =
     [\<lparr>tc_name = ''ping'', tc_args = [], tc_id = ''a''\<rparr>,
      \<lparr>tc_name = ''boom'', tc_args = [], tc_id = ''b''\<rparr>,
      \<lparr>tc_name = ''nope'', tc_args = [], tc_id = ''c''\<rparr>]"

lemma tool_result_fst:
  "fst (tool_result tbn tc s) =
     (case tbn (tc_name tc) of
        None \<Rightarrow> ''Unknown tool: '' @ tc_name tc
      | Some t \<Rightarrow>
          (case fst (invoke t (tc_args tc) (world s)) of
             Inr out \<Rightarrow> out
           | Inl e \<Rightarrow> ''Error executing tool '' @ tc_name tc @ '': '' @ str_exn e))"
  by (simp add: tool_result_def split: option.splits prod.splits sum.splits)

lemma tool_result_logs:
  "sleeps (snd (tool_result tbn tc s)) = sleeps s \<and>
   calls (snd (tool_result tbn tc s)) = calls s \<and>
   queries (snd (tool_result tbn tc s)) = queries s \<and>
   written (snd (tool_result tbn tc s)) = written s"
  by (simp add: tool_result_def split: option.splits prod.splits sum.splits)

lemma dispatch_tools_logs:
  "sleeps (snd (dispatch_tools tbn tcs messages s)) = sleeps s \<and>
   calls (snd (dispatch_tools tbn tcs messages s)) = calls s \<and>
   queries (snd (dispatch_tools tbn tcs messages s)) = queries s \<and>
   written (snd (dispatch_tools tbn tcs messages s)) = written s"
proof (induction tcs arbitrary: messages s)
  case Nil
  show ?case by simp
next
  case (Cons tc tcs)
  obtain result s1 where t: "tool_result tbn tc s = (result, s1)"
    by (cases "tool_result tbn tc s")
  with tool_result_logs [of tbn tc s] Cons.IH [of "messages @ [ToolMessage result (tc_id tc)]" s1]
  show ?case by simp
qed

lemma dispatch_tools_shape:
  "\<exists>rs. fst (dispatch_tools tbn tcs messages s) = messages @ rs \<and> length rs = length tcs \<and>
     (\<forall>i<length tcs. rs ! i =
        ToolMessage (fst (tool_result tbn (tcs ! i)
                       (snd (dispatch_tools tbn (take i tcs) messages s))))
          (tc_id (tcs ! i)))"
proof (induction tcs arbitrary: messages s)
  case Nil
  show ?case by simp
next
  case (Cons tc tcs)
  obtain result s1 where t: "tool_result tbn tc s = (result, s1)"
    by (cases "tool_result tbn tc s")
  let ?m = "messages @ [ToolMessage result (tc_id tc)]"
  from Cons.IH [of ?m s1] obtain rs where rs:
    "fst (dispatch_tools tbn tcs ?m s1) = ?m @ rs" "length rs = length tcs"
    "\<forall>i<length tcs. rs ! i =
        ToolMessage (fst (tool_result tbn (tcs ! i) (snd (dispatch_tools tbn (take i tcs) ?m s1))))
          (tc_id (tcs ! i))"
    by blast
  let ?rs = "ToolMessage result (tc_id tc) # rs"
  have 1: "fst (dispatch_tools tbn (tc # tcs) messages s) = messages @ ?rs"
    using t rs(1) by simp
  have 2: "length ?rs = length (tc # tcs)"
    using rs(2) by simp
  have 3: "?rs ! i =
        ToolMessage (fst (tool_result tbn ((tc # tcs) ! i)
                       (snd (dispatch_tools tbn (take i (tc # tcs)) messages s))))
          (tc_id ((tc # tcs) ! i))" if "i < length (tc # tcs)" for i
  proof (cases i)
    case 0
    then show ?thesis using t by simp
  next
    case (Suc k)
    with that have "k < length tcs" by simp
    with rs(3) show ?thesis using Suc t by simp
  qed
  from 1 2 3 show ?case by blast
qed

text \<open>
  Claim C5. In an iteration whose assistant message carries tool invocations, the loop
  appends one \<open>ToolMessage\<close> per invocation, in invocation order, each with the id of its
  invocation. Its text is the tool's output when the name is bound and the invocation
  returns, \<open>Error executing tool <name>: <error text>\<close> when the invocation raises, and
  \<open>Unknown tool: <name>\<close> when the name is not bound. The dispatch has no failing outcome:
  the iteration goes on to the next one with the extended history.
\<close>

theorem dispatch_tools_results:
  "(\<exists>results. fst (dispatch_tools tbn tcs messages s) = messages @ results \<and>
      length results = length tcs \<and>
      (\<forall>i<length tcs.
         results ! i =
           ToolMessage
             (case tbn (tc_name (tcs ! i)) of
                None \<Rightarrow> ''Unknown tool: '' @ tc_name (tcs ! i)
              | Some t \<Rightarrow>
                  (case fst (invoke t (tc_args (tcs ! i))
                              (world (snd (dispatch_tools tbn (take i tcs) messages s)))) of
                     Inr out \<Rightarrow> out
                   | Inl e \<Rightarrow> ''Error executing tool '' @ tc_name (tcs ! i) @ '': '' @ str_exn e))
             (tc_id (tcs ! i)))) \<and>
   (invoke_with_retry (llm_with_tools r) history MAX_RETRIES s = (Inr response, s1) \<and>
    tool_calls response \<noteq> [] \<longrightarrow>
      run_iterations r (Suc n) last_response history s =
        run_iterations r n (Some response)
          (fst (dispatch_tools (tools_by_name (tools r)) (tool_calls response)
                  (history @ [response]) s1))
          (snd (dispatch_tools (tools_by_name (tools r)) (tool_calls response)
                  (history @ [response]) s1)))"
proof (rule conjI)
  from dispatch_tools_shape [of tbn tcs messages s]
  show "\<exists>results. fst (dispatch_tools tbn tcs messages s) = messages @ results \<and>
      length results = length tcs \<and>
      (\<forall>i<length tcs.
         results ! i =
           ToolMessage
             (case tbn (tc_name (tcs ! i)) of
                None \<Rightarrow> ''Unknown tool: '' @ tc_name (tcs ! i)
              | Some t \<Rightarrow>
                  (case fst (invoke t (tc_args (tcs ! i))
                              (world (snd (dispatch_tools tbn (take i tcs) messages s)))) of
                     Inr out \<Rightarrow> out
                   | Inl e \<Rightarrow> ''Error executing tool '' @ tc_name (tcs ! i) @ '': '' @ str_exn e))
             (tc_id (tcs ! i)))"
    by (simp add: tool_result_fst)
next
  show "invoke_with_retry (llm_with_tools r) history MAX_RETRIES s = (Inr response, s1) \<and>
    tool_calls response \<noteq> [] \<longrightarrow>
      run_iterations r (Suc n) last_response history s =
        run_iterations r n (Some response)
          (fst (dispatch_tools (tools_by_name (tools r)) (tool_calls response)
                  (history @ [response]) s1))
          (snd (dispatch_tools (tools_by_name (tools r)) (tool_calls response)
                  (history @ [response]) s1))"
    by (simp add: Let_def split_beta)
qed

theorem dispatch_tools_results_witness:
  "\<exists>results. fst (dispatch_tools (tools_by_name [tool_ping, tool_boom]) three_calls [] s0) = results \<and>
     length results = 3 \<and>
     results ! 0 = ToolMessage ''pong'' ''a'' \<and>
     results ! 1 = ToolMessage ''Error executing tool boom: bad input'' ''b'' \<and>
     results ! 2 = ToolMessage ''Unknown tool: nope'' ''c''"
proof -
  have tbn: "tools_by_name [tool_ping, tool_boom] ''ping'' = Some tool_ping"
    "tools_by_name [tool_ping, tool_boom] ''boom'' = Some tool_boom"
    "tools_by_name [tool_ping, tool_boom] ''nope'' = None"
    by (simp_all add: tools_by_name_def dict_of_def tool_ping_def tool_boom_def)
  from dispatch_tools_results [where tbn = "tools_by_name [tool_ping, tool_boom]"
      and tcs = three_calls and messages = "[]" and s = s0]
  obtain results where r:
    "fst (dispatch_tools (tools_by_name [tool_ping, tool_boom]) three_calls [] s0) = [] @ results"
    "length results = length three_calls"
    "\<forall>i<length three_calls.
         results ! i =
           ToolMessage
             (case tools_by_name [tool_ping, tool_boom] (tc_name (three_calls ! i)) of
                None \<Rightarrow> ''Unknown tool: '' @ tc_name (three_calls ! i)
              | Some t \<Rightarrow>
                  (case fst (invoke t (tc_args (three_calls ! i))
                              (world (snd (dispatch_tools (tools_by_name [tool_ping, tool_boom])
                                 (take i three_calls) [] s0)))) of
                     Inr out \<Rightarrow> out
                   | Inl e \<Rightarrow> ''Error executing tool '' @ tc_name (three_calls ! i) @ '': '' @ str_exn e))
             (tc_id (three_calls ! i))"
    by blast
  have len: "length three_calls = 3"
    by (simp add: three_calls_def)
  have inv: "invoke tool_ping [] w = (Inr ''pong'', w)"
    "invoke tool_boom [] w = (Inl (Exception ''bad input''), w)" for w :: nat
    by (simp_all add: tool_ping_def tool_boom_def)
  from r(3) [rule_format, of 0] len have "results ! 0 = ToolMessage ''pong'' ''a''"
    by (simp add: three_calls_def tbn inv)
  moreover from r(3) [rule_format, of 1] len
  have "results ! 1 = ToolMessage ''Error executing tool boom: bad input'' ''b''"
    by (simp add: three_calls_def tbn inv)
  moreover from r(3) [rule_format, of 2] len
  have "results ! 2 = ToolMessage ''Unknown tool: nope'' ''c''"
    by (simp add: three_calls_def tbn inv)
  ultimately show ?thesis using r(1,2) len by simp
qed





lemma invoke_with_retry_success:
  assumes "llm messages (world s) = (Inr response, w)" and "0 \<le> max_retries"
  shows "invoke_with_retry llm messages max_retries s =
    (Inr response, s\<lparr>world := w, calls := Suc (calls s)\<rparr>)"
  using assms
  by (simp add: invoke_with_retry_def retry_loop.simps [of _ _ _ 0] invoke_llm_eq)

lemma invoke_runner_success:
  assumes "llm_with_tools r messages (world s) = (Inr response, w)"
  shows "invoke_with_retry (llm_with_tools r) messages MAX_RETRIES s =
    (Inr response, s\<lparr>world := w, calls := Suc (calls s)\<rparr>)"
  using assms
  by (simp add: invoke_with_retry_def retry_loop.simps [of _ _ _ 0] invoke_llm_eq MAX_RETRIES_def)







text \<open>
  A provider with a tool schema bound, which emits an invocation before it answers, and one
  with no schema, which answers in plain text.
\<close>

definition nope_call :: tool_call where
  "nope_call = \<lparr>tc_name = ''nope'', tc_args = [], tc_id = ''c''\<rparr>"

definition stub_eager :: "nat provider" where
  "stub_eager messages w =
     (if w = 0 then Inr (AIMessage [] [nope_call]) else Inr (AIMessage ''done'' []), Suc w)"

definition stub_plain :: "nat provider" where
  "stub_plain messages w = (Inr (AIMessage ''answer'' []), Suc w)"

lemma dispatch_no_tools:
  "dispatch_tools (tools_by_name []) tcs messages s =
     (messages @ map (\<lambda>tc. ToolMessage (''Unknown tool: '' @ tc_name tc) (tc_id tc)) tcs, s)"
  by (induction tcs arbitrary: messages)
     (simp_all add: tool_result_def tools_by_name_def dict_of_def)

lemma run_step_plain:
  assumes "llm_with_tools r messages (world s) = (Inr response, w)"
    and "tool_calls response = []"
  shows "run_iterations r (Suc n) last_response messages s =
    (Inr (content response), messages @ [response], s\<lparr>world := w, calls := Suc (calls s)\<rparr>)"
  using assms(2) by (simp add: invoke_runner_success [OF assms(1)])

lemma run_step_tools:
  assumes "llm_with_tools r messages (world s) = (Inr response, w)"
    and "tool_calls response \<noteq> []"
    and "dispatch_tools (tools_by_name (tools r)) (tool_calls response) (messages @ [response])
           (s\<lparr>world := w, calls := Suc (calls s)\<rparr>) = (messages2, s2)"
  shows "run_iterations r (Suc n) last_response messages s =
    run_iterations r n (Some response) messages2 s2"
  using assms(2,3) by (simp add: invoke_runner_success [OF assms(1)])

lemma run_step_raise:
  assumes "invoke_with_retry (llm_with_tools r) messages MAX_RETRIES s = (Inl e, s1)"
  shows "run_iterations r (Suc n) last_response messages s = (Inl e, messages, s1)"
  using assms by simp

lemma run_step_answer:
  assumes "invoke_with_retry (llm_with_tools r) messages MAX_RETRIES s = (Inr response, s1)"
    and "tool_calls response = []"
  shows "run_iterations r (Suc n) last_response messages s =
    (Inr (content response), messages @ [response], s1)"
  using assms by simp

text \<open>A response that the retry loop returns is one that the provider gave.\<close>

lemma retry_loop_response:
  "retry_loop llm messages mr a w s = (Inr response, s') \<Longrightarrow>
   \<exists>v v'. llm messages v = (Inr response, v')"
proof (induction llm messages mr a w s rule: retry_loop.induct)
  case (1 llm messages mr a w s)
  obtain r s1 where inv: "invoke_llm llm messages s = (r, s1)"
    by (cases "invoke_llm llm messages s")
  have r: "\<exists>v'. llm messages (world s) = (r, v')"
    using inv by (auto simp: invoke_llm_def split: prod.splits)
  show ?case
  proof (cases "\<not> a > mr \<and> (\<exists>e. r = Inl e \<and> is_rate_limit (str_exn e)) \<and> a < mr")
    case True
    then obtain e where e: "r = Inl e" "is_rate_limit (str_exn e)" and lt: "a < mr" "\<not> a > mr"
      by auto
    have eq: "retry_loop llm messages mr a w s =
       retry_loop llm messages mr (a + 1) (min (w * 2) 300) (sleep w s1)"
      using inv e lt by (subst retry_loop.simps) simp
    from "1.IH" [OF lt(2) inv [symmetric] e(1) e(2) lt(1)] "1.prems" eq
    show ?thesis by simp
  next
    case False
    then have "r = Inr response"
      using inv "1.prems" by (subst (asm) retry_loop.simps) (auto split: sum.splits if_splits)
    with r show ?thesis by blast
  qed
qed

text \<open>
  Claim C8. An agent constructed with an empty tool list talks to the model itself, with
  no tool schema bound (line 41), and a model with no schema emits no invocations. Its
  conversation loop then ends in its first iteration, whatever tools the binding would have
  offered: the run is one pass through the retry policy, whose failure it raises and whose
  response it appends and returns the content of, and no tool result is appended. When the
  model answers the request, that is one provider request.
\<close>

theorem no_tools_single_iteration:
  assumes empty: "ts = []"
    and unbound: "\<forall>msgs w response w'. llm msgs w = (Inr response, w') \<longrightarrow> tool_calls response = []"
  shows "run_history (AgentRunner cfg_name prompt llm bind_tools ts) query s =
           (case invoke_with_retry llm [SystemMessage prompt, HumanMessage query] MAX_RETRIES s of
              (Inl e, s1) \<Rightarrow> (Inl e, [SystemMessage prompt, HumanMessage query], s1)
            | (Inr response, s1) \<Rightarrow>
                (Inr (content response),
                 [SystemMessage prompt, HumanMessage query, response], s1)) \<and>
         (llm [SystemMessage prompt, HumanMessage query] (world s) = (Inr answer, w) \<longrightarrow>
            run_history (AgentRunner cfg_name prompt llm bind_tools ts) query s =
              (Inr (content answer), [SystemMessage prompt, HumanMessage query, answer],
               s\<lparr>world := w, calls := Suc (calls s)\<rparr>) \<and>
            run (AgentRunner cfg_name prompt llm bind_tools ts) query s =
              (Inr (content answer), s\<lparr>world := w, calls := Suc (calls s)\<rparr>))"
proof -
  let ?r = "AgentRunner cfg_name prompt llm bind_tools ts"
  let ?init = "[SystemMessage prompt, HumanMessage query]"
  have r: "llm_with_tools ?r = llm" "system_prompt ?r = prompt"
    using empty by (simp_all add: AgentRunner_def)
  have ten: "max_iterations = Suc 9"
    by (simp add: max_iterations_def)
  obtain res s1 where inv: "invoke_with_retry llm ?init MAX_RETRIES s = (res, s1)"
    by (cases "invoke_with_retry llm ?init MAX_RETRIES s")
  have 1: "run_history ?r query s =
      (case invoke_with_retry llm ?init MAX_RETRIES s of
         (Inl e, s1) \<Rightarrow> (Inl e, ?init, s1)
       | (Inr response, s1) \<Rightarrow>
           (Inr (content response), [SystemMessage prompt, HumanMessage query, response], s1))"
  proof (cases res)
    case (Inl e)
    with inv have "invoke_with_retry (llm_with_tools ?r)
        [SystemMessage (system_prompt ?r), HumanMessage query] MAX_RETRIES s = (Inl e, s1)"
      by (simp add: r)
    from run_step_raise [OF this, of 9 None] inv Inl show ?thesis
      by (simp add: run_history_def ten r)
  next
    case (Inr response)
    with inv have "\<exists>v v'. llm ?init v = (Inr response, v')"
      using retry_loop_response [of llm ?init MAX_RETRIES 0 INITIAL_WAIT_SECONDS s response s1]
      by (simp add: invoke_with_retry_def)
    with unbound have e: "tool_calls response = []"
      by blast
    from inv Inr have "invoke_with_retry (llm_with_tools ?r)
        [SystemMessage (system_prompt ?r), HumanMessage query] MAX_RETRIES s = (Inr response, s1)"
      by (simp add: r)
    from run_step_answer [OF this e, of 9 None] inv Inr show ?thesis
      by (simp add: run_history_def ten r)
  qed
  have 2: "run_history ?r query s =
      (Inr (content answer), ?init @ [answer], s\<lparr>world := w, calls := Suc (calls s)\<rparr>)"
    if a: "llm ?init (world s) = (Inr answer, w)"
  proof -
    from unbound a have e: "tool_calls answer = []"
      by blast
    have "llm_with_tools ?r [SystemMessage (system_prompt ?r), HumanMessage query] (world s) =
        (Inr answer, w)"
      using a by (simp add: r)
    from run_step_plain [OF this e, of 9 None] show ?thesis
      by (simp add: run_history_def ten r)
  qed
  show ?thesis
  proof (intro conjI impI)
    show "run_history ?r query s =
      (case invoke_with_retry llm ?init MAX_RETRIES s of
         (Inl e, s1) \<Rightarrow> (Inl e, ?init, s1)
       | (Inr response, s1) \<Rightarrow>
           (Inr (content response), [SystemMessage prompt, HumanMessage query, response], s1))"
      by (rule 1)
  next
    assume "llm ?init (world s) = (Inr answer, w)"
    from 2 [OF this]
    show "run_history ?r query s =
        (Inr (content answer), [SystemMessage prompt, HumanMessage query, answer],
         s\<lparr>world := w, calls := Suc (calls s)\<rparr>)"
      by simp
  next
    assume "llm ?init (world s) = (Inr answer, w)"
    from 2 [OF this]
    show "run ?r query s = (Inr (content answer), s\<lparr>world := w, calls := Suc (calls s)\<rparr>)"
      by (simp add: run_def)
  qed
qed

theorem no_tools_single_iteration_witness:
  "run_history (AgentRunner ''Research'' ''sys'' stub_plain (\<lambda>ts. stub_eager) []) ''q'' s0 =
     (Inr ''answer'', [SystemMessage ''sys'', HumanMessage ''q'', AIMessage ''answer'' []],
      s0\<lparr>world := 1, calls := 1\<rparr>) \<and>
   run (AgentRunner ''Research'' ''sys'' stub_plain (\<lambda>ts. stub_eager) []) ''q'' s0 =
     (Inr ''answer'', s0\<lparr>world := 1, calls := 1\<rparr>)"
proof -
  have u: "\<forall>msgs w response w'. stub_plain msgs w = (Inr response, w') \<longrightarrow> tool_calls response = []"
    by (auto simp: stub_plain_def)
  have a: "stub_plain [SystemMessage ''sys'', HumanMessage ''q''] (world s0) =
      (Inr (AIMessage ''answer'' []), 1)"
    by (simp add: stub_plain_def s0_def)
  note t = no_tools_single_iteration [OF refl u, where cfg_name = "''Research''"
      and prompt = "''sys''" and bind_tools = "\<lambda>ts. stub_eager" and query = "''q''" and s = s0
      and answer = "AIMessage ''answer'' []" and w = 1]
  from t [THEN conjunct2, THEN mp, OF a] show ?thesis
    by (simp add: s0_def)
qed

text \<open>
  A supervisor whose provider delegates once and then answers, with a delegate that
  returns \<open>X\<close> and one whose provider fails.
\<close>

definition stub_x :: "nat provider" where
  "stub_x messages w = (Inr (AIMessage ''X'' []), Suc w)"

definition runner_architekt :: "nat agent_runner" where
  "runner_architekt =
     \<lparr>config_name = ''Solution Architekt'', system_prompt = ''sys'',
      llm_with_tools = stub_x, tools = []\<rparr>"

definition runner_failing :: "nat agent_runner" where
  "runner_failing =
     \<lparr>config_name = ''Research'', system_prompt = ''sys'',
      llm_with_tools = stub_fatal, tools = []\<rparr>"

definition delegate_call :: "string \<Rightarrow> tool_call" where
  "delegate_call agent_name =
     \<lparr>tc_name = ''delegate_to_agent'',
      tc_args = [(''agent_name'', agent_name), (''task'', ''design'')], tc_id = ''d1''\<rparr>"

definition stub_supervisor :: "string \<Rightarrow> nat provider" where
  "stub_supervisor agent_name messages w =
     (if w = 0 then Inr (AIMessage [] [delegate_call agent_name])
      else Inr (AIMessage ''final'' []), Suc w)"

definition orchestrator_example :: "nat orchestrator" where
  "orchestrator_example =
     \<lparr>supervisor_prompt = ''supervise'',
      supervisor_with_tools = stub_supervisor ''research'',
      agent_runners = [''research'' \<mapsto> runner_failing, ''architekt'' \<mapsto> runner_architekt]\<rparr>"

lemma contains_append: "contains sub (pre @ sub @ post)"
proof (induction pre)
  case Nil
  show ?case
  proof (cases "sub @ post")
    case Nil
    then show ?thesis by simp
  next
    case (Cons a list)
    have "prefix sub (a # list)"
      by (metis Cons prefixI)
    then show ?thesis using Cons by simp
  qed
next
  case (Cons c pre)
  then show ?case by simp
qed

lemma invoke_runner_fatal:
  assumes "llm_with_tools r messages (world s) = (Inl e, w)"
    and "\<not> is_rate_limit (str_exn e)"
  shows "invoke_with_retry (llm_with_tools r) messages MAX_RETRIES s =
    (Inl e, s\<lparr>world := w, calls := Suc (calls s)\<rparr>)"
  using assms
  by (simp add: invoke_with_retry_def retry_loop.simps [of _ _ _ 0] invoke_llm_eq MAX_RETRIES_def)

lemma run_step_fatal:
  assumes "llm_with_tools r messages (world s) = (Inl e, w)"
    and "\<not> is_rate_limit (str_exn e)"
  shows "run_iterations r (Suc n) last_response messages s =
    (Inl e, messages, s\<lparr>world := w, calls := Suc (calls s)\<rparr>)"
  by (simp add: invoke_runner_fatal [OF assms])

lemma supervise_step_raise:
  assumes "invoke_llm (supervisor_with_tools orch) messages s = (Inr response, s1)"
    and "tool_calls response \<noteq> []"
    and "delegate_all (agent_runners orch) (tool_calls response) (messages @ [response]) s1 =
           (Some e, messages2, s2)"
  shows "supervise orch (Suc n) last_response messages s = (Inl e, messages2, s2)"
  using assms by simp

lemma run_failing:
  "run runner_failing task s = (Inl fatal, s\<lparr>world := Suc (world s), calls := Suc (calls s)\<rparr>)"
proof -
  have 1: "llm_with_tools runner_failing [SystemMessage (system_prompt runner_failing),
      HumanMessage task] (world s) = (Inl fatal, Suc (world s))"
    by (simp add: runner_failing_def stub_fatal_def)
  have "max_iterations = Suc 9"
    by (simp add: max_iterations_def)
  then show ?thesis
    using run_step_fatal [OF 1 fatal_signal, of 9 None]
    by (simp add: run_def run_history_def)
qed

lemma run_architekt:
  "run runner_architekt task s = (Inr ''X'', s\<lparr>world := Suc (world s), calls := Suc (calls s)\<rparr>)"
proof -
  have 1: "llm_with_tools runner_architekt [SystemMessage (system_prompt runner_architekt),
      HumanMessage task] (world s) = (Inr (AIMessage ''X'' []), Suc (world s))"
    by (simp add: runner_architekt_def stub_x_def)
  have "max_iterations = Suc 9"
    by (simp add: max_iterations_def)
  then show ?thesis
    using run_step_plain [OF 1, of 9 None]
    by (simp add: run_def run_history_def)
qed

text \<open>
  Claim C1 does not hold of the code: \<open>Orchestrator.run\<close> calls \<open>runner.run(task)\<close> outside any
  \<open>try\<close>, so the failure of a registered delegate leaves the supervisor run as the raised
  exception, and no tool result is appended for the invocation.
\<close>

theorem supervisor_delegate_failure_propagates:
  "orchestrator_run_history orchestrator_example ''q'' s0 =
     (Inl fatal,
      [SystemMessage ''supervise'', HumanMessage ''q'', AIMessage [] [delegate_call ''research'']],
      s0\<lparr>world := 2, calls := 2\<rparr>) \<and>
   fst (orchestrator_run orchestrator_example ''q'' s0) = Inl fatal"
proof -
  let ?m = "[SystemMessage ''supervise'', HumanMessage ''q'']"
  let ?resp = "AIMessage [] [delegate_call ''research'']"
  let ?s1 = "s0\<lparr>world := 1, calls := 1\<rparr>"
  have inv: "invoke_llm (supervisor_with_tools orchestrator_example) ?m s0 = (Inr ?resp, ?s1)"
    by (simp add: invoke_llm_def orchestrator_example_def stub_supervisor_def s0_def)
  have d: "delegate (agent_runners orchestrator_example) (delegate_call ''research'')
      (?m @ [?resp]) ?s1 = (Some fatal, ?m @ [?resp], s0\<lparr>world := 2, calls := 2\<rparr>)"
    by (simp add: delegate_def get_arg_def delegate_call_def orchestrator_example_def
        run_failing s0_def)
  have da: "delegate_all (agent_runners orchestrator_example) (tool_calls ?resp)
      (?m @ [?resp]) ?s1 = (Some fatal, ?m @ [?resp], s0\<lparr>world := 2, calls := 2\<rparr>)"
    using d by simp
  have "max_iterations = Suc 9"
    by (simp add: max_iterations_def)
  with supervise_step_raise [OF inv _ da, of 9 None] have "orchestrator_run_history orchestrator_example ''q'' s0 =
     (Inl fatal, ?m @ [?resp], s0\<lparr>world := 2, calls := 2\<rparr>)"
    by (simp add: orchestrator_run_history_def orchestrator_example_def)
  then show ?thesis
    by (simp add: orchestrator_run_def)
qed











lemma retry_loop_queries:
  "queries (snd (retry_loop llm messages mr a w s)) = queries s \<and>
   written (snd (retry_loop llm messages mr a w s)) = written s"
proof (induction llm messages mr a w s rule: retry_loop.induct)
  case (1 llm messages mr a w s)
  obtain r s1 where inv: "invoke_llm llm messages s = (r, s1)"
    by (cases "invoke_llm llm messages s")
  have s1: "queries s1 = queries s" "written s1 = written s"
    using inv by (auto simp: invoke_llm_def split: prod.splits)
  show ?case
  proof (cases "\<not> a > mr \<and> (\<exists>e. r = Inl e \<and> is_rate_limit (str_exn e)) \<and> a < mr")
    case True
    then obtain e where e: "r = Inl e" "is_rate_limit (str_exn e)" and lt: "a < mr" "\<not> a > mr"
      by auto
    have eq: "retry_loop llm messages mr a w s =
       retry_loop llm messages mr (a + 1) (min (w * 2) 300) (sleep w s1)"
      using inv e lt by (subst retry_loop.simps) simp
    from "1.IH" [OF lt(2) inv [symmetric] e(1) e(2) lt(1)] show ?thesis
      using s1 by (simp add: eq sleep_def)
  next
    case False
    then have "snd (retry_loop llm messages mr a w s) = (if a > mr then s else s1)"
      using inv by (subst retry_loop.simps) (auto split: sum.splits)
    then show ?thesis using s1 by simp
  qed
qed

lemma run_iterations_queries:
  "queries (snd (snd (run_iterations r n last_response messages s))) = queries s \<and>
   written (snd (snd (run_iterations r n last_response messages s))) = written s"
proof (induction n arbitrary: last_response messages s)
  case 0
  show ?case by (simp split: option.splits)
next
  case (Suc n)
  obtain res s1 where inv: "invoke_with_retry (llm_with_tools r) messages MAX_RETRIES s = (res, s1)"
    by (cases "invoke_with_retry (llm_with_tools r) messages MAX_RETRIES s")
  have s1: "queries s1 = queries s" "written s1 = written s"
    using retry_loop_queries [of "llm_with_tools r" messages MAX_RETRIES 0 INITIAL_WAIT_SECONDS s] inv
    by (simp_all add: invoke_with_retry_def)
  show ?case
  proof (cases res)
    case (Inl e)
    with inv s1 show ?thesis by simp
  next
    case (Inr response)
    show ?thesis
    proof (cases "tool_calls response = []")
      case True
      with inv Inr s1 show ?thesis by simp
    next
      case False
      obtain m2 s2 where d: "dispatch_tools (tools_by_name (tools r)) (tool_calls response)
          (messages @ [response]) s1 = (m2, s2)"
        by (cases "dispatch_tools (tools_by_name (tools r)) (tool_calls response)
              (messages @ [response]) s1")
      have s2: "queries s2 = queries s1" "written s2 = written s1"
        using dispatch_tools_logs [of "tools_by_name (tools r)" "tool_calls response"
            "messages @ [response]" s1] d by simp_all
      have "run_iterations r (Suc n) last_response messages s =
          run_iterations r n (Some response) m2 s2"
        using inv Inr False d by simp
      with Suc.IH [of "Some response" m2 s2] s1 s2 show ?thesis by simp
    qed
  qed
qed

lemma run_queries:
  "queries (snd (run r query s)) = queries s \<and> written (snd (run r query s)) = written s"
  using run_iterations_queries [of r max_iterations None
      "[SystemMessage (system_prompt r), HumanMessage query]" s]
  by (simp add: run_def run_history_def split_beta)

lemma run_single_agent_queries:
  "queries (snd (run_single_agent mk agent_name query s)) = queries s @ [(agent_name, query)] \<and>
   written (snd (run_single_agent mk agent_name query s)) = written s"
  using run_queries [of _ query "s\<lparr>queries := queries s @ [(agent_name, query)]\<rparr>"]
  by (simp add: run_single_agent_def Let_def split: sum.splits)

text \<open>One pass of the body of \<open>for q in questions\<close>: the answer it appends and the state it leaves.\<close>

definition response_of :: "(exn + string) \<Rightarrow> string" where
  "response_of res =
     (case res of Inr r \<Rightarrow> r | Inl e \<Rightarrow> ''Fehler bei der Verarbeitung: '' @ str_exn e)"

lemma process_loop_Cons:
  "\<exists>s2. process_loop mk context output_path original_content (q # qs) answers s =
     process_loop mk context output_path original_content qs
       (answers @
        [\<lparr>question_number = number q, question_line = original_line q, question_text = qtext q,
          answer_text = response_of (fst (run_single_agent mk (agent q)
             (full_query_of context (format_previous_answers answers) (qtext q)) s))\<rparr>])
       s2 \<and>
     queries s2 = queries s @
       [(agent q, full_query_of context (format_previous_answers answers) (qtext q))]"
proof -
  let ?query = "full_query_of context (format_previous_answers answers) (qtext q)"
  obtain res s1 where r: "run_single_agent mk (agent q) ?query s = (res, s1)"
    by (cases "run_single_agent mk (agent q) ?query s")
  have q1: "queries s1 = queries s @ [(agent q, ?query)]"
    using run_single_agent_queries [of mk "agent q" ?query s] r by simp
  show ?thesis
    using r q1
    by (cases res; cases output_path; cases original_content)
       (auto simp: Let_def response_of_def)
qed

lemma process_loop_answers:
  "\<exists>new. fst (process_loop mk context output_path original_content qs answers s) = answers @ new \<and>
     length new = length qs \<and>
     map question_number new = map number qs \<and>
     map question_line new = map original_line qs \<and>
     map question_text new = map qtext qs"
proof (induction qs arbitrary: answers s)
  case Nil
  show ?case by simp
next
  case (Cons q qs)
  from process_loop_Cons [of mk "context" output_path original_content q qs answers s]
  obtain s2 a where step:
    "process_loop mk context output_path original_content (q # qs) answers s =
     process_loop mk context output_path original_content qs (answers @ [a]) s2"
    "question_number a = number q" "question_line a = original_line q"
    "question_text a = qtext q"
    by force
  from Cons.IH [of "answers @ [a]" s2] obtain new where new:
    "fst (process_loop mk context output_path original_content qs (answers @ [a]) s2) =
       (answers @ [a]) @ new"
    "length new = length qs" "map question_number new = map number qs"
    "map question_line new = map original_line qs" "map question_text new = map qtext qs"
    by blast
  have "fst (process_loop mk context output_path original_content (q # qs) answers s) =
      answers @ (a # new)"
    using step(1) new(1) by simp
  moreover have "length (a # new) = length (q # qs)"
    using new(2) by simp
  moreover have "map question_number (a # new) = map number (q # qs)"
    "map question_line (a # new) = map original_line (q # qs)"
    "map question_text (a # new) = map qtext (q # qs)"
    using step(2-4) new(3-5) by simp_all
  ultimately show ?case by blast
qed

lemma process_loop_append:
  "process_loop mk context output_path original_content (xs @ ys) answers s =
     (case process_loop mk context output_path original_content xs answers s of
        (answers1, s1) \<Rightarrow> process_loop mk context output_path original_content ys answers1 s1)"
proof (induction xs arbitrary: answers s)
  case Nil
  show ?case by simp
next
  case (Cons q xs)
  show ?case
    by (simp add: Cons.IH Let_def split_beta)
qed


lemma process_loop_nth:
  assumes i: "i < length questions"
  shows "\<exists>a_i s_i ans new.
      process_loop mk context output_path original_content (take i questions) [] s = (a_i, s_i) \<and>
      length a_i = i \<and>
      fst (process_loop mk context output_path original_content questions [] s) =
        a_i @ ans # new \<and>
      answer_text ans = response_of (fst (run_single_agent mk (agent (questions ! i))
         (full_query_of context (format_previous_answers a_i) (qtext (questions ! i))) s_i))"
proof -
  obtain a_i s_i where p: "process_loop mk context output_path original_content
      (take i questions) [] s = (a_i, s_i)"
    by (cases "process_loop mk context output_path original_content (take i questions) [] s")
  from process_loop_answers [of mk "context" output_path original_content "take i questions" "[]" s]
  have len: "length a_i = i"
    using p i by auto
  have split: "questions = take i questions @ questions ! i # drop (Suc i) questions"
    using i by (simp add: id_take_nth_drop)
  have "process_loop mk context output_path original_content questions [] s =
      process_loop mk context output_path original_content
        (questions ! i # drop (Suc i) questions) a_i s_i"
    using process_loop_append [of mk "context" output_path original_content "take i questions"
        "questions ! i # drop (Suc i) questions" "[]" s] p split
    by simp
  moreover from process_loop_Cons [of mk "context" output_path original_content "questions ! i"
      "drop (Suc i) questions" a_i s_i]
  obtain s2 ans where step:
    "process_loop mk context output_path original_content
        (questions ! i # drop (Suc i) questions) a_i s_i =
     process_loop mk context output_path original_content (drop (Suc i) questions) (a_i @ [ans]) s2"
    "answer_text ans = response_of (fst (run_single_agent mk (agent (questions ! i))
         (full_query_of context (format_previous_answers a_i) (qtext (questions ! i))) s_i))"
    by force
  moreover from process_loop_answers [of mk "context" output_path original_content
      "drop (Suc i) questions" "a_i @ [ans]" s2]
  obtain new where "fst (process_loop mk context output_path original_content
      (drop (Suc i) questions) (a_i @ [ans]) s2) = (a_i @ [ans]) @ new"
    by blast
  ultimately have "fst (process_loop mk context output_path original_content questions [] s) =
      a_i @ ans # new"
    by simp
  with p len step(2) show ?thesis by blast
qed

text \<open>
  Claim C7. \<open>process_questions\<close> returns one answer per question, in question order, whatever
  the agent calls do. The answer to question \<open>i\<close> is the agent's response or, when the call
  raises \<open>e\<close>, the placeholder \<open>Fehler bei der Verarbeitung: <e>\<close>; the call is made in the
  state the first \<open>i\<close> questions left, with their answers as context, so a failure does not
  stop the questions after it.
\<close>

theorem process_questions_isolates_failures:
  assumes "process_questions mk context questions output_path original_content s = (answers, s')"
  shows "length answers = length questions \<and>
    map question_number answers = map number questions \<and>
    map question_line answers = map original_line questions \<and>
    map question_text answers = map qtext questions \<and>
    (\<forall>i<length questions.
       fst (process_questions mk context (take i questions) output_path original_content s) =
         take i answers \<and>
       answer_text (answers ! i) =
         (case fst (run_single_agent mk (agent (questions ! i))
                 (full_query_of context (format_previous_answers (take i answers))
                    (qtext (questions ! i)))
                 (snd (process_questions mk context (take i questions) output_path
                         original_content s))) of
            Inr r \<Rightarrow> r
          | Inl e \<Rightarrow> ''Fehler bei der Verarbeitung: '' @ str_exn e))"
proof -
  have a: "fst (process_loop mk context output_path original_content questions [] s) = answers"
    using assms by (simp add: process_questions_def)
  from process_loop_answers [of mk "context" output_path original_content questions "[]" s] a
  have shape: "length answers = length questions"
    "map question_number answers = map number questions"
    "map question_line answers = map original_line questions"
    "map question_text answers = map qtext questions"
    by auto
  have each: "fst (process_questions mk context (take i questions) output_path original_content s) =
         take i answers \<and>
       answer_text (answers ! i) =
         (case fst (run_single_agent mk (agent (questions ! i))
                 (full_query_of context (format_previous_answers (take i answers))
                    (qtext (questions ! i)))
                 (snd (process_questions mk context (take i questions) output_path
                         original_content s))) of
            Inr r \<Rightarrow> r
          | Inl e \<Rightarrow> ''Fehler bei der Verarbeitung: '' @ str_exn e)"
    if i: "i < length questions" for i
  proof -
    from process_loop_nth [OF i, of mk "context" output_path original_content s]
    obtain a_i s_i ans new where n:
      "process_loop mk context output_path original_content (take i questions) [] s = (a_i, s_i)"
      "length a_i = i"
      "fst (process_loop mk context output_path original_content questions [] s) = a_i @ ans # new"
      "answer_text ans = response_of (fst (run_single_agent mk (agent (questions ! i))
         (full_query_of context (format_previous_answers a_i) (qtext (questions ! i))) s_i))"
      by blast
    have ans: "answers = a_i @ ans # new"
      using n(3) a by simp
    have t: "take i answers = a_i" "answers ! i = ans"
      using ans n(2) by (simp_all add: nth_append)
    show ?thesis
      using n(1,4) t by (simp add: process_questions_def response_of_def)
  qed
  from shape each show ?thesis by blast
qed


text \<open>Two questions, a registry whose research agent fails, and an agent that echoes its prompt.\<close>

definition two_questions :: "question list" where
  "two_questions =
     [\<lparr>number = 1, agent = ''research'', qtext = ''A?'', line_index = 2,
       original_line = ''1. A?''\<rparr>,
      \<lparr>number = 2, agent = ''architekt'', qtext = ''B?'', line_index = 3,
       original_line = ''2. @sa B?''\<rparr>]"

definition mk_example :: "string \<Rightarrow> exn + nat agent_runner" where
  "mk_example agent_name =
     (if agent_name = ''research'' then Inr runner_failing
      else if agent_name = ''architekt'' then Inr runner_architekt
      else Inl (Exception (''Unknown agent: '' @ agent_name)))"

definition stub_echo :: "nat provider" where
  "stub_echo messages w = (Inr (AIMessage (content (last messages)) []), Suc w)"

definition runner_echo :: "nat agent_runner" where
  "runner_echo =
     \<lparr>config_name = ''Echo'', system_prompt = ''sys'', llm_with_tools = stub_echo, tools = []\<rparr>"

definition mk_echo :: "string \<Rightarrow> exn + nat agent_runner" where
  "mk_echo agent_name = Inr runner_echo"

theorem process_questions_isolates_failures_witness:
  "length (fst (process_questions mk_example ''C'' two_questions None None s0)) = 2 \<and>
   answer_text (fst (process_questions mk_example ''C'' two_questions None None s0) ! 0) =
     ''Fehler bei der Verarbeitung: Error code: 500'' \<and>
   answer_text (fst (process_questions mk_example ''C'' two_questions None None s0) ! 1) = ''X''"
proof -
  obtain answers s' where p:
    "process_questions mk_example ''C'' two_questions None None s0 = (answers, s')"
    by (cases "process_questions mk_example ''C'' two_questions None None s0")
  have r: "fst (run_single_agent mk_example ''research'' query s) = Inl fatal"
    "fst (run_single_agent mk_example ''architekt'' query s) = Inr ''X''" for query s
    by (simp_all add: run_single_agent_def mk_example_def Let_def run_failing run_architekt)
  have q: "length two_questions = 2" "agent (two_questions ! 0) = ''research''"
    "agent (two_questions ! Suc 0) = ''architekt''"
    by (simp_all add: two_questions_def)
  note t = process_questions_isolates_failures [OF p]
  from t have "length answers = 2"
    by (simp add: q)
  moreover from t have "answer_text (answers ! 0) = ''Fehler bei der Verarbeitung: Error code: 500''"
    using q(1) by (simp add: q(2) r fatal_def del: take_0)
  moreover from t have "answer_text (answers ! 1) = ''X''"
    using q(1) by (simp add: q(3) r)
  ultimately show ?thesis
    by (simp add: p)
qed

lemma contains_iff: "contains sub s \<longleftrightarrow> (\<exists>pre post. s = pre @ sub @ post)"
proof
  assume "contains sub s"
  then show "\<exists>pre post. s = pre @ sub @ post"
  proof (induction s)
    case Nil
    then show ?case by simp
  next
    case (Cons c cs)
    show ?case
    proof (cases "prefix sub (c # cs)")
      case True
      then obtain post where "c # cs = sub @ post"
        by (auto simp: prefix_def)
      then have "c # cs = [] @ sub @ post" by simp
      then show ?thesis by blast
    next
      case False
      with Cons.prems have "contains sub cs" by simp
      from Cons.IH [OF this] obtain pre post where "cs = pre @ sub @ post"
        by blast
      then have "c # cs = (c # pre) @ sub @ post" by simp
      then show ?thesis by blast
    qed
  qed
next
  assume "\<exists>pre post. s = pre @ sub @ post"
  then show "contains sub s"
    using contains_append by blast
qed

lemma contains_trans: "contains a b \<Longrightarrow> contains b c \<Longrightarrow> contains a c"
proof -
  assume "contains a b" "contains b c"
  then obtain p1 q1 p2 q2 where "b = p1 @ a @ q1" "c = p2 @ b @ q2"
    by (auto simp: contains_iff)
  then have "c = (p2 @ p1) @ a @ (q1 @ q2)" by simp
  then show ?thesis
    unfolding contains_iff by blast
qed

lemma contains_join: "p \<in> set parts \<Longrightarrow> contains p (join sep parts)"
proof (induction sep parts rule: join.induct)
  case (1 sep)
  then show ?case by simp
next
  case (2 sep x)
  then show ?case using contains_append [of p "[]" "[]"] by simp
next
  case (3 sep x y ps)
  show ?case
  proof (cases "p = x")
    case True
    then show ?thesis
      using contains_append [of x "[]" "sep @ join sep (y # ps)"] by simp
  next
    case False
    with "3.prems" have "p \<in> set (y # ps)" by simp
    from "3.IH" [OF this] obtain pre post where "join sep (y # ps) = pre @ p @ post"
      by (auto simp: contains_iff)
    then have "join sep (x # y # ps) = (x @ sep @ pre) @ p @ post" by simp
    then show ?thesis
      unfolding contains_iff by blast
  qed
qed

lemma format_previous_answers_block:
  assumes "a \<in> set answers"
  shows "contains (''### '' @ question_text a @ [NL] @ answer_text a @ [NL])
           (format_previous_answers answers)"
    and "contains (answer_text a) (format_previous_answers answers)"
proof -
  let ?block = "''### '' @ question_text a @ [NL] @ answer_text a @ [NL]"
  have ne: "answers \<noteq> []" using assms by auto
  have "?block \<in> set ((''Bisherige Fragen und Antworten:'' @ [NL]) #
      map (\<lambda>a. ''### '' @ question_text a @ [NL] @ answer_text a @ [NL]) answers)"
    using assms by auto
  from contains_join [OF this, of "[NL]"]
  show b: "contains ?block (format_previous_answers answers)"
    using ne by (simp add: format_previous_answers_def)
  have "contains (answer_text a) ?block"
    using contains_append [of "answer_text a" "''### '' @ question_text a @ [NL]" "[NL]"]
    by simp
  then show "contains (answer_text a) (format_previous_answers answers)"
    using b by (rule contains_trans)
qed

lemma format_previous_answers_nonempty:
  "answers \<noteq> [] \<Longrightarrow> format_previous_answers answers \<noteq> []"
  by (cases answers) (simp_all add: format_previous_answers_def)

lemma full_query_of_contains:
  assumes "previous \<noteq> []"
  shows "contains context (full_query_of context previous question)"
    and "contains previous (full_query_of context previous question)"
    and "contains question (full_query_of context previous question)"
proof -
  let ?tail = "''Bitte beantworte die Frage basierend auf dem Kontext und den bisherigen Antworten.''"
  have q: "full_query_of context previous question =
      ''Kontext:'' @ [NL] @ context @ [NL, NL] @ previous @ [NL, NL] @
        ''Aktuelle Frage:'' @ [NL] @ question @ [NL, NL] @ ?tail"
    using assms by (simp add: full_query_of_def)
  show "contains context (full_query_of context previous question)"
    using contains_append [of "context" "''Kontext:'' @ [NL]"
        "[NL, NL] @ previous @ [NL, NL] @ ''Aktuelle Frage:'' @ [NL] @ question @ [NL, NL] @ ?tail"]
    by (simp add: q)
  show "contains previous (full_query_of context previous question)"
    using contains_append [of previous "''Kontext:'' @ [NL] @ context @ [NL, NL]"
        "[NL, NL] @ ''Aktuelle Frage:'' @ [NL] @ question @ [NL, NL] @ ?tail"]
    by (simp add: q)
  show "contains question (full_query_of context previous question)"
    using contains_append [of question
        "''Kontext:'' @ [NL] @ context @ [NL, NL] @ previous @ [NL, NL] @ ''Aktuelle Frage:'' @ [NL]"
        "[NL, NL] @ ?tail"]
    by (simp add: q)
qed

lemma process_loop_queries:
  "\<exists>ql. queries (snd (process_loop mk context output_path original_content qs answers s)) =
          queries s @ ql \<and>
     length ql = length qs \<and>
     (\<forall>i<length qs. ql ! i =
        (agent (qs ! i),
         full_query_of context
           (format_previous_answers
              (take (length answers + i)
                 (fst (process_loop mk context output_path original_content qs answers s))))
           (qtext (qs ! i))))"
proof (induction qs arbitrary: answers s)
  case Nil
  show ?case by simp
next
  case (Cons q qs)
  let ?query = "full_query_of context (format_previous_answers answers) (qtext q)"
  from process_loop_Cons [of mk "context" output_path original_content q qs answers s]
  obtain s2 a where step:
    "process_loop mk context output_path original_content (q # qs) answers s =
     process_loop mk context output_path original_content qs (answers @ [a]) s2"
    "queries s2 = queries s @ [(agent q, ?query)]"
    by force
  let ?out = "fst (process_loop mk context output_path original_content qs (answers @ [a]) s2)"
  from Cons.IH [of "answers @ [a]" s2] obtain ql where ql:
    "queries (snd (process_loop mk context output_path original_content qs (answers @ [a]) s2)) =
       queries s2 @ ql"
    "length ql = length qs"
    "\<forall>i<length qs. ql ! i =
        (agent (qs ! i),
         full_query_of context (format_previous_answers (take (length (answers @ [a]) + i) ?out))
           (qtext (qs ! i)))"
    by blast
  from process_loop_answers [of mk "context" output_path original_content qs "answers @ [a]" s2]
  obtain new where out: "?out = (answers @ [a]) @ new"
    by blast
  let ?ql = "(agent q, ?query) # ql"
  have 1: "queries (snd (process_loop mk context output_path original_content (q # qs) answers s)) =
      queries s @ ?ql"
    using step ql(1) by simp
  have 2: "length ?ql = length (q # qs)"
    using ql(2) by simp
  have 3: "?ql ! i =
        (agent ((q # qs) ! i),
         full_query_of context
           (format_previous_answers
              (take (length answers + i)
                 (fst (process_loop mk context output_path original_content (q # qs) answers s))))
           (qtext ((q # qs) ! i)))" if "i < length (q # qs)" for i
  proof (cases i)
    case 0
    have "take (length answers) ?out = answers"
      using out by simp
    then show ?thesis using 0 step(1) by simp
  next
    case (Suc k)
    with that have "k < length qs" by simp
    with ql(3) show ?thesis using Suc step(1) by simp
  qed
  from 1 2 3 show ?case by blast
qed

text \<open>
  Claim C9. For every question after the first, the query handed to the agent contains the
  document context, the current question's text and, for every answer produced before, the
  labelled block \<open>### <question text>\<close>, newline, \<open><answer text>\<close>, newline, hence the literal
  answer text.
\<close>

theorem later_query_contains_previous_answers:
  assumes "process_questions mk context questions output_path original_content s = (answers, s')"
    and "0 < i" and "i < length questions"
  shows "\<exists>query. queries s' ! (length (queries s) + i) = (agent (questions ! i), query) \<and>
      contains context query \<and>
      contains (qtext (questions ! i)) query \<and>
      (\<forall>j<i. contains (''### '' @ question_text (answers ! j) @ [NL] @
                         answer_text (answers ! j) @ [NL]) query \<and>
              contains (answer_text (answers ! j)) query)"
proof -
  have a: "process_loop mk context output_path original_content questions [] s = (answers, s')"
    using assms(1) by (simp add: process_questions_def)
  from process_loop_answers [of mk "context" output_path original_content questions "[]" s] a
  have len: "length answers = length questions"
    by auto
  from process_loop_queries [of mk "context" output_path original_content questions "[]" s] a
  obtain ql where ql: "queries s' = queries s @ ql" "length ql = length questions"
    "\<forall>i<length questions. ql ! i =
        (agent (questions ! i),
         full_query_of context (format_previous_answers (take i answers)) (qtext (questions ! i)))"
    by auto
  let ?prev = "format_previous_answers (take i answers)"
  let ?query = "full_query_of context ?prev (qtext (questions ! i))"
  have "take i answers \<noteq> []"
    using assms(2,3) len by auto
  then have ne: "?prev \<noteq> []"
    by (rule format_previous_answers_nonempty)
  have at: "queries s' ! (length (queries s) + i) = (agent (questions ! i), ?query)"
    using ql assms(3) by (simp add: nth_append)
  have blocks: "contains (''### '' @ question_text (answers ! j) @ [NL] @
                         answer_text (answers ! j) @ [NL]) ?query \<and>
              contains (answer_text (answers ! j)) ?query" if "j < i" for j
  proof -
    have "answers ! j \<in> set (take i answers)"
      using that assms(3) len by (auto simp: in_set_conv_nth intro!: exI [of _ j])
    from format_previous_answers_block [OF this] full_query_of_contains(2) [OF ne]
    show ?thesis
      by (blast intro: contains_trans)
  qed
  from at full_query_of_contains(1,3) [OF ne] blocks show ?thesis
    by blast
qed

theorem later_query_contains_previous_answers_witness:
  "\<exists>query. queries (snd (process_questions mk_echo ''C'' two_questions None None s0)) ! 1 =
        (''architekt'', query) \<and>
     contains ''C'' query \<and> contains ''B?'' query \<and>
     contains (answer_text (fst (process_questions mk_echo ''C'' two_questions None None s0) ! 0))
       query"
proof -
  obtain answers s' where p:
    "process_questions mk_echo ''C'' two_questions None None s0 = (answers, s')"
    by (cases "process_questions mk_echo ''C'' two_questions None None s0")
  have q: "Suc 0 < length two_questions" "agent (two_questions ! Suc 0) = ''architekt''"
    "qtext (two_questions ! Suc 0) = ''B?''" "length (queries s0) = 0"
    by (simp_all add: two_questions_def s0_def)
  from later_query_contains_previous_answers [OF p _ q(1)]
  obtain query where "queries s' ! Suc 0 = (''architekt'', query)" "contains ''C'' query"
    "contains ''B?'' query" "contains (answer_text (answers ! 0)) query"
    by (auto simp: q)
  then show ?thesis
    by (auto simp: p)
qed


























end
